theory Spec2Isabelle
  imports Main
begin

section \<open>Data model\<close>

text \<open>
  The rope of \<^verbatim>\<open>node.hpp\<close> and \<^verbatim>\<open>rope.hpp\<close>, instantiated at
  \<^verbatim>\<open>cont_type = std::basic_string<value_type>\<close>: a fragment is a list of elements.

  A \<^verbatim>\<open>rope_node\<close> has the four fields of the class. A \<^verbatim>\<open>handle\<close>
  (\<^verbatim>\<open>std::unique_ptr<rope_node>\<close>) is \<open>None\<close> for \<^verbatim>\<open>nullptr\<close>.

  Integers. The sizes of data that is held in memory (fragment sizes, weights, lengths, depths)
  are natural numbers: they are bounded by the address space, and sums of sizes of disjoint
  owned subtrees cannot wrap. Values that are not such sizes are \<^verbatim>\<open>size_t\<close> values
  modulo \<open>2 ^ 64\<close> with the wrap-around written out: the arguments of the public operations
  and what is computed from them, and the Fibonacci numbers of \<^verbatim>\<open>fib\<close>. The
  \<^verbatim>\<open>int\<close> counters of \<^verbatim>\<open>build_fib_list\<close> are 32 bits wide and their
  overflow is an error.
\<close>

datatype 'a rope_node =
  Node (weight: nat) (left: "'a rope_node option") (right: "'a rope_node option")
       (fragment: "'a list")

type_synonym 'a handle = "'a rope_node option"

text \<open>
  What can go wrong: \<open>OutOfRange\<close> is the exception \<^verbatim>\<open>std::out_of_range\<close>
  (\<^verbatim>\<open>ERROR_OOB_ROPE\<close>, \<^verbatim>\<open>ERROR_OOB_NODE\<close>, and the one thrown by
  \<^verbatim>\<open>basic_string::substr\<close>); the others are undefined behaviour of the C++ program:
  dereferencing a null handle, indexing a vector or a string out of its bounds, and signed
  overflow.
\<close>

datatype error = OutOfRange | NullDeref | IndexOutOfBounds | IntOverflow

text \<open>
  \<^verbatim>\<open>size_t\<close> has 64 bits. \<open>size_add\<close> and \<open>size_sub\<close> are its \<open>+\<close> and \<open>-\<close> on
  operands below \<open>2 ^ 64\<close>.
\<close>

definition SIZE_MOD :: nat where
  "SIZE_MOD = 2 ^ 64"

definition size_add :: "nat \<Rightarrow> nat \<Rightarrow> nat" where
  "size_add a b = (a + b) mod SIZE_MOD"

definition size_sub :: "nat \<Rightarrow> nat \<Rightarrow> nat" where
  "size_sub a b = (if b \<le> a then a - b else a + SIZE_MOD - b)"

definition INT_MAX :: nat where
  "INT_MAX = 2147483647"

text \<open>
  \<^verbatim>\<open>basic_string::substr(pos, n)\<close>: throws \<^verbatim>\<open>std::out_of_range\<close> if
  \<^verbatim>\<open>pos > size()\<close>, else the \<^verbatim>\<open>min(n, size() - pos)\<close> elements from \<^verbatim>\<open>pos\<close>.
\<close>

definition string_substr :: "'a list \<Rightarrow> nat \<Rightarrow> nat \<Rightarrow> error + 'a list" where
  "string_substr s pos n = (if pos > length s then Inl OutOfRange else Inr (take n (drop pos s)))"

section \<open>rope_node\<close>

definition is_leaf :: "'a rope_node \<Rightarrow> bool" where
  "is_leaf n = (left n = None \<and> right n = None)"

fun length_node :: "'a rope_node \<Rightarrow> nat" where
  "length_node (Node w l r f) =
     (if l = None \<and> r = None then w
      else w + (case r of None \<Rightarrow> 0 | Some rn \<Rightarrow> length_node rn))"

text \<open>The leaf constructor \<^verbatim>\<open>rope_node(const cont_type& str)\<close>.\<close>

definition rope_node_leaf :: "'a list \<Rightarrow> 'a rope_node" where
  "rope_node_leaf str = Node (length str) None None str"

text \<open>
  The concatenating constructor \<^verbatim>\<open>rope_node(handle l, handle r)\<close>: it reads
  \<^verbatim>\<open>this->left_->length()\<close> without a check.
\<close>

definition rope_node_concat :: "'a handle \<Rightarrow> 'a handle \<Rightarrow> error + 'a rope_node" where
  "rope_node_concat l r =
     (case l of
        None \<Rightarrow> Inl NullDeref
      | Some ln \<Rightarrow> Inr (Node (length_node ln) l r []))"

text \<open>The copy constructor: a deep copy, field by field.\<close>

fun rope_node_copy :: "'a rope_node \<Rightarrow> 'a rope_node" where
  "rope_node_copy (Node w l r f) =
     Node w (case l of None \<Rightarrow> None | Some ln \<Rightarrow> Some (rope_node_copy ln))
            (case r of None \<Rightarrow> None | Some rn \<Rightarrow> Some (rope_node_copy rn)) f"

text \<open>
  \<^verbatim>\<open>get_item\<close> reads \<^verbatim>\<open>fragment_[index]\<close> without a check. For a
  \<^verbatim>\<open>basic_string\<close>, \<^verbatim>\<open>operator[]\<close> at \<^verbatim>\<open>index == size()\<close> is defined and
  refers to the null character \<^verbatim>\<open>value_type()\<close>, here the parameter \<open>nul\<close>; beyond
  that it is undefined.
\<close>

fun get_item :: "'a \<Rightarrow> 'a rope_node \<Rightarrow> nat \<Rightarrow> error + 'a" where
  "get_item nul (Node w l r f) index =
     (if l = None \<and> r = None then
        (if index < length f then Inr (f ! index)
         else if index = length f then Inr nul
         else Inl IndexOutOfBounds)
      else if index < w then
        (case l of None \<Rightarrow> Inl NullDeref | Some ln \<Rightarrow> get_item nul ln index)
      else
        (case r of None \<Rightarrow> Inl NullDeref | Some rn \<Rightarrow> get_item nul rn (index - w)))"

fun get_item_safe :: "'a rope_node \<Rightarrow> nat \<Rightarrow> error + 'a" where
  "get_item_safe (Node w l r f) index =
     (if l = None \<and> r = None then
        (if index \<ge> w then Inl OutOfRange
         else if index < length f then Inr (f ! index) else Inl IndexOutOfBounds)
      else if index < w then
        (case l of None \<Rightarrow> Inl NullDeref | Some ln \<Rightarrow> get_item_safe ln index)
      else
        (case r of None \<Rightarrow> Inl NullDeref | Some rn \<Rightarrow> get_item_safe rn (index - w)))"

fun substr_node :: "'a rope_node \<Rightarrow> nat \<Rightarrow> nat \<Rightarrow> error + 'a list" where
  "substr_node (Node w l r f) start len =
     (if l = None \<and> r = None then
        (if len < w then string_substr f start len else Inr f)
      else if start < w then
        (case (case l of None \<Rightarrow> Inr [] | Some ln \<Rightarrow> substr_node ln start len) of
           Inl e \<Rightarrow> Inl e
         | Inr lResult \<Rightarrow>
             if size_add start len > w then
               (let tmp = w - start in
                case (case r of None \<Rightarrow> Inr []
                      | Some rn \<Rightarrow> substr_node rn w (size_sub len tmp)) of
                  Inl e \<Rightarrow> Inl e
                | Inr rResult \<Rightarrow> Inr (lResult @ rResult))
             else Inr lResult)
      else
        (case r of None \<Rightarrow> Inr [] | Some rn \<Rightarrow> substr_node rn (start - w) len))"

fun tree_to_string :: "'a rope_node \<Rightarrow> 'a list" where
  "tree_to_string (Node w l r f) =
     (if l = None \<and> r = None then f
      else (case l of None \<Rightarrow> [] | Some ln \<Rightarrow> tree_to_string ln) @
           (case r of None \<Rightarrow> [] | Some rn \<Rightarrow> tree_to_string rn))"

text \<open>
  \<^verbatim>\<open>split(handle node, size_t index)\<close>. The input handle is consumed; in the branch
  \<^verbatim>\<open>index < w\<close> the node is reused with \<^verbatim>\<open>right_ = nullptr\<close> and
  \<^verbatim>\<open>weight_ = index\<close>.
\<close>

fun split :: "'a handle \<Rightarrow> nat \<Rightarrow> error + ('a handle \<times> 'a handle)" where
  "split None index = Inl NullDeref"
| "split (Some (Node w l r f)) index =
     (if l = None \<and> r = None then
        (case string_substr f 0 index of
           Inl e \<Rightarrow> Inl e
         | Inr a \<Rightarrow>
             (case string_substr f index (size_sub w index) of
                Inl e \<Rightarrow> Inl e
              | Inr b \<Rightarrow> Inr (Some (rope_node_leaf a), Some (rope_node_leaf b))))
      else if index < w then
        (case split l index of
           Inl e \<Rightarrow> Inl e
         | Inr (sl, sr) \<Rightarrow>
             (case rope_node_concat sr r of
                Inl e \<Rightarrow> Inl e
              | Inr n \<Rightarrow> Inr (Some (Node index sl None f), Some n)))
      else if w < index then
        (case split r (index - w) of
           Inl e \<Rightarrow> Inl e
         | Inr (sl, sr) \<Rightarrow> Inr (Some (Node w l sl f), sr))
      else Inr (l, r))"

fun depth :: "'a rope_node \<Rightarrow> nat" where
  "depth (Node w l r f) =
     (if l = None \<and> r = None then 0
      else max ((case l of None \<Rightarrow> 0 | Some ln \<Rightarrow> depth ln) + 1)
               ((case r of None \<Rightarrow> 0 | Some rn \<Rightarrow> depth rn) + 1))"

text \<open>\<^verbatim>\<open>getLeaves\<close> appends to the vector it is given; the model returns what is appended.\<close>

fun getLeaves :: "'a rope_node \<Rightarrow> 'a rope_node list" where
  "getLeaves (Node w l r f) =
     (if l = None \<and> r = None then [Node w l r f]
      else (case l of None \<Rightarrow> [] | Some ln \<Rightarrow> getLeaves ln) @
           (case r of None \<Rightarrow> [] | Some rn \<Rightarrow> getLeaves rn))"

section \<open>rope\<close>

record 'a rope =
  root :: "'a handle"

text \<open>\<^verbatim>\<open>rope(const T& str)\<close> and the default constructor \<^verbatim>\<open>rope() : rope(cont_type())\<close>.\<close>

definition rope_of :: "'a list \<Rightarrow> 'a rope" where
  "rope_of str = \<lparr>root = Some (rope_node_leaf str)\<rparr>"

definition rope_default :: "'a rope" where
  "rope_default = rope_of []"

text \<open>The copy constructor \<^verbatim>\<open>rope(const rope& r)\<close> reads \<^verbatim>\<open>*r.root_\<close> without a check.\<close>

definition rope_copy :: "'a rope \<Rightarrow> error + 'a rope" where
  "rope_copy r =
     (case root r of
        None \<Rightarrow> Inl NullDeref
      | Some n \<Rightarrow> Inr \<lparr>root = Some (rope_node_copy (rope_node_copy n))\<rparr>)"

definition to_string :: "'a rope \<Rightarrow> 'a list" where
  "to_string r = (case root r of None \<Rightarrow> [] | Some n \<Rightarrow> tree_to_string n)"

definition length_rope :: "'a rope \<Rightarrow> nat" where
  "length_rope r = (case root r of None \<Rightarrow> 0 | Some n \<Rightarrow> length_node n)"

text \<open>
  The mutators return what was raised, if anything, and the rope as the call leaves it. A handle
  that has been moved from is null: an exception raised after \<^verbatim>\<open>move(this->root_)\<close>
  leaves the rope with a null root.
\<close>

definition append_rope :: "'a rope \<Rightarrow> 'a rope \<Rightarrow> error option \<times> 'a rope" where
  "append_rope this r =
     (case rope_copy r of
        Inl e \<Rightarrow> (Some e, this)
      | Inr tmp \<Rightarrow>
          (case rope_node_concat (root this) (root tmp) of
             Inl e \<Rightarrow> (Some e, this\<lparr>root := None\<rparr>)
           | Inr n \<Rightarrow> (None, this\<lparr>root := Some n\<rparr>)))"

definition append_str :: "'a rope \<Rightarrow> 'a list \<Rightarrow> error option \<times> 'a rope" where
  "append_str this str =
     (let tmp = rope_of str in
      case rope_node_concat (root this) (root tmp) of
        Inl e \<Rightarrow> (Some e, this\<lparr>root := None\<rparr>)
      | Inr n \<Rightarrow> (None, this\<lparr>root := Some n\<rparr>))"

definition insert_rope :: "'a rope \<Rightarrow> nat \<Rightarrow> 'a rope \<Rightarrow> error option \<times> 'a rope" where
  "insert_rope this i r =
     (if length_rope this < i then (Some OutOfRange, this)
      else
        (case rope_copy r of
           Inl e \<Rightarrow> (Some e, this)
         | Inr tmp \<Rightarrow>
             (case split (root this) i of
                Inl e \<Rightarrow> (Some e, this\<lparr>root := None\<rparr>)
              | Inr (first, second) \<Rightarrow>
                  (case rope_node_concat first (root tmp) of
                     Inl e \<Rightarrow> (Some e, this\<lparr>root := None\<rparr>)
                   | Inr tmpConcat \<Rightarrow>
                       (case rope_node_concat (Some tmpConcat) second of
                          Inl e \<Rightarrow> (Some e, this\<lparr>root := None\<rparr>)
                        | Inr n \<Rightarrow> (None, this\<lparr>root := Some n\<rparr>))))))"

definition insert_str :: "'a rope \<Rightarrow> nat \<Rightarrow> 'a list \<Rightarrow> error option \<times> 'a rope" where
  "insert_str this i str = insert_rope this i (rope_of str)"

definition erase :: "'a rope \<Rightarrow> nat \<Rightarrow> nat \<Rightarrow> error option \<times> 'a rope" where
  "erase this start len =
     (let actualLength = length_rope this in
      if start > actualLength \<or> size_add start len > actualLength then (Some OutOfRange, this)
      else
        (case split (root this) start of
           Inl e \<Rightarrow> (Some e, this\<lparr>root := None\<rparr>)
         | Inr (first1, second1) \<Rightarrow>
             (case split second1 len of
                Inl e \<Rightarrow> (Some e, this\<lparr>root := None\<rparr>)
              | Inr (first2, second2) \<Rightarrow>
                  (case rope_node_concat first1 second2 of
                     Inl e \<Rightarrow> (Some e, this\<lparr>root := None\<rparr>)
                   | Inr n \<Rightarrow> (None, this\<lparr>root := Some n\<rparr>)))))"

text \<open>
  Modelled from the spec: \<^verbatim>\<open>rope_node::getCharByIndex\<close>, which \<^verbatim>\<open>rope::at\<close> and
  \<^verbatim>\<open>rope::operator[]\<close> call, is not declared in \<^verbatim>\<open>node.hpp\<close>. The spec has
  \<open>at\<close> delegate to the node's \<open>get_item\<close>, which it describes as: at a leaf, return the
  element at \<open>index\<close> of the fragment, with the out-of-range error if \<open>index \<ge> weight\<close>; at
  an internal node, recurse left when \<open>index < weight\<close>, else right with \<open>index - weight\<close>.
  (This is what \<^verbatim>\<open>get_item_safe\<close> of \<^verbatim>\<open>node.hpp\<close> does.)
\<close>

fun getCharByIndex :: "'a rope_node \<Rightarrow> nat \<Rightarrow> error + 'a" where
  "getCharByIndex (Node w l r f) index =
     (if l = None \<and> r = None then
        (if index \<ge> w then Inl OutOfRange
         else if index < length f then Inr (f ! index) else Inl IndexOutOfBounds)
      else if index < w then
        (case l of None \<Rightarrow> Inl NullDeref | Some ln \<Rightarrow> getCharByIndex ln index)
      else
        (case r of None \<Rightarrow> Inl NullDeref | Some rn \<Rightarrow> getCharByIndex rn (index - w)))"

text \<open>
  Modelled from the spec: \<^verbatim>\<open>rope_node::getSubstring\<close>, which \<^verbatim>\<open>rope::substr\<close> calls, is
  not declared in \<^verbatim>\<open>node.hpp\<close>. The spec has the rope's \<open>substring\<close> delegate to the
  node's \<open>substring\<close>, which is \<^verbatim>\<open>rope_node::substr\<close>.
\<close>

definition getSubstring :: "'a rope_node \<Rightarrow> nat \<Rightarrow> nat \<Rightarrow> error + 'a list" where
  "getSubstring n start len = substr_node n start len"

definition at :: "'a rope \<Rightarrow> nat \<Rightarrow> error + 'a" where
  "at this index =
     (case root this of
        None \<Rightarrow> Inl OutOfRange
      | Some n \<Rightarrow> getCharByIndex n index)"

definition substr_rope :: "'a rope \<Rightarrow> nat \<Rightarrow> nat \<Rightarrow> error + 'a list" where
  "substr_rope this start len =
     (let actualLength = length_rope this in
      if start > actualLength \<or> size_add start len > actualLength then Inl OutOfRange
      else (case root this of
              None \<Rightarrow> Inl NullDeref
            | Some n \<Rightarrow> getSubstring n start len))"

subsection \<open>Fibonacci numbers\<close>

text \<open>\<^verbatim>\<open>fib\<close>: the loop over the bits of \<open>n\<close>, every assignment modulo \<open>2 ^ 64\<close>.\<close>

function fib_loop :: "nat \<Rightarrow> nat \<Rightarrow> nat \<Rightarrow> nat \<Rightarrow> nat \<Rightarrow> nat \<Rightarrow> nat \<Rightarrow> nat" where
  "fib_loop n a b c d rc rd =
     (if n \<noteq> 0 then
        fib_loop (n div 2)
          ((a * a + b * c) mod SIZE_MOD) ((a * b + b * d) mod SIZE_MOD)
          ((c * a + d * c) mod SIZE_MOD) ((c * b + d * d) mod SIZE_MOD)
          (if n mod 2 = 1 then (rc * a + rd * c) mod SIZE_MOD else rc)
          (if n mod 2 = 1 then (rc * b + rd * d) mod SIZE_MOD else rd)
      else rc)"
  by pat_completeness auto
termination
  by (relation "measure (\<lambda>(n, a, b, c, d, rc, rd). n)") auto

definition fib :: "nat \<Rightarrow> nat" where
  "fib n = fib_loop n 1 1 1 0 0 1"

text \<open>
  \<^verbatim>\<open>build_fib_list\<close>: \<open>a\<close>, \<open>b\<close> and \<open>next\<close> are \<^verbatim>\<open>int\<close>. The loop need not
  end for every \<open>a\<close> and \<open>b\<close>; \<open>None\<close> is a loop that runs forever.
\<close>

partial_function (option) build_fib_loop ::
  "nat \<Rightarrow> nat \<Rightarrow> nat \<Rightarrow> nat list \<Rightarrow> (error + nat list) option" where
  "build_fib_loop a b len intervals =
     (if a \<le> len then
        (let intervals1 = (if a > 0 then intervals @ [b] else intervals) in
         if a + b > INT_MAX then Some (Inl IntOverflow)
         else build_fib_loop b (a + b) len intervals1)
      else Some (Inr intervals))"

definition build_fib_list :: "nat \<Rightarrow> (error + nat list) option" where
  "build_fib_list len = build_fib_loop 0 1 len []"

definition is_balanced :: "'a rope \<Rightarrow> bool" where
  "is_balanced this =
     (case root this of
        None \<Rightarrow> True
      | Some n \<Rightarrow> (let d = depth n in length_rope this \<ge> fib (size_add d 2)))"

subsection \<open>balance\<close>

text \<open>
  The slots \<^verbatim>\<open>nodes\<close> are a list of handles, \<^verbatim>\<open>intervals\<close> a list of numbers; reading
  either at an index that is not below its size is undefined behaviour.

  \<open>merge_slot\<close> is the block that occurs twice in \<^verbatim>\<open>balance\<close>: copy the slot and
  \<open>acc\<close>, and concatenate them, the slot on the left.
\<close>

definition merge_slot :: "'a rope_node \<Rightarrow> 'a handle \<Rightarrow> error + 'a rope_node" where
  "merge_slot slot acc =
     (case acc of
        None \<Rightarrow> Inl NullDeref
      | Some a \<Rightarrow> rope_node_concat (Some (rope_node_copy slot)) (Some (rope_node_copy a)))"

text \<open>The inner loop \<^verbatim>\<open>while (i < max_i && len >= intervals[i + 1])\<close>.\<close>

function find_slot ::
  "nat list \<Rightarrow> nat \<Rightarrow> nat \<Rightarrow> 'a handle \<Rightarrow> nat \<Rightarrow> 'a handle list
     \<Rightarrow> error + (nat \<times> 'a handle \<times> nat \<times> 'a handle list)" where
  "find_slot intervals max_i i acc len nodes =
     (if i < max_i then
        (if i + 1 < length intervals then
           (if len \<ge> intervals ! (i + 1) then
              (if i < length nodes then
                 (case nodes ! i of
                    None \<Rightarrow> find_slot intervals max_i (i + 1) acc len nodes
                  | Some slot \<Rightarrow>
                      (case merge_slot slot acc of
                         Inl e \<Rightarrow> Inl e
                       | Inr n \<Rightarrow>
                           (let len1 = length_node n in
                            find_slot intervals max_i (i + 1) (Some n) len1
                              (if len1 \<ge> intervals ! (i + 1) then nodes[i := None] else nodes))))
               else Inl IndexOutOfBounds)
            else Inr (i, acc, len, nodes))
         else Inl IndexOutOfBounds)
      else Inr (i, acc, len, nodes))"
  by pat_completeness auto
termination
  by (relation "measure (\<lambda>(intervals, max_i, i, acc, len, nodes). max_i - i)") auto

text \<open>
  The loop \<^verbatim>\<open>while (!inserted)\<close> for one leaf; it returns the slots and
  \<^verbatim>\<open>currMaxInterval\<close>.
\<close>

partial_function (option) insert_acc ::
  "nat list \<Rightarrow> nat \<Rightarrow> nat \<Rightarrow> nat \<Rightarrow> 'a handle \<Rightarrow> nat \<Rightarrow> 'a handle list
     \<Rightarrow> (error + ('a handle list \<times> nat)) option" where
  "insert_acc intervals max_i currMaxInterval i acc len nodes =
     (case find_slot intervals max_i i acc len nodes of
        Inl e \<Rightarrow> Some (Inl e)
      | Inr (i1, acc1, len1, nodes1) \<Rightarrow>
          (if i1 < length nodes1 then
             (case nodes1 ! i1 of
                None \<Rightarrow>
                  Some (Inr (nodes1[i1 := acc1],
                             if i1 > currMaxInterval then i1 else currMaxInterval))
              | Some slot \<Rightarrow>
                  (case merge_slot slot acc1 of
                     Inl e \<Rightarrow> Some (Inl e)
                   | Inr n \<Rightarrow>
                       (let len2 = length_node n in
                        if i1 + 1 < length intervals then
                          insert_acc intervals max_i currMaxInterval i1 (Some n) len2
                            (if len2 \<ge> intervals ! (i1 + 1) then nodes1[i1 := None] else nodes1)
                        else Some (Inl IndexOutOfBounds))))
           else Some (Inl IndexOutOfBounds)))"

text \<open>The loop over the leaves.\<close>

fun insert_leaves ::
  "nat list \<Rightarrow> nat \<Rightarrow> 'a rope_node list \<Rightarrow> 'a handle list \<Rightarrow> nat
     \<Rightarrow> (error + ('a handle list \<times> nat)) option" where
  "insert_leaves intervals max_i [] nodes currMaxInterval = Some (Inr (nodes, currMaxInterval))"
| "insert_leaves intervals max_i (leaf # leaves) nodes currMaxInterval =
     (let len = length_node leaf in
      if len > 0 then
        (case insert_acc intervals max_i currMaxInterval 0 (Some (rope_node_copy leaf)) len nodes of
           None \<Rightarrow> None
         | Some (Inl e) \<Rightarrow> Some (Inl e)
         | Some (Inr (nodes1, currMax1)) \<Rightarrow> insert_leaves intervals max_i leaves nodes1 currMax1)
      else insert_leaves intervals max_i leaves nodes currMaxInterval)"

text \<open>
  The last phase: \<^verbatim>\<open>acc = move(nodes[currMaxInterval])\<close>, then the loop
  \<^verbatim>\<open>for (int idx = currMaxInterval; idx >= 0; --idx)\<close>.
\<close>

definition fold_step :: "'a handle list \<Rightarrow> 'a handle \<Rightarrow> nat \<Rightarrow> error + 'a handle" where
  "fold_step nodes acc idx =
     (if idx < length nodes then
        (case nodes ! idx of
           None \<Rightarrow> Inr acc
         | Some slot \<Rightarrow>
             (case rope_node_concat acc (Some (rope_node_copy slot)) of
                Inl e \<Rightarrow> Inl e
              | Inr n \<Rightarrow> Inr (Some n)))
      else Inl IndexOutOfBounds)"

fun fold_loop :: "'a handle list \<Rightarrow> 'a handle \<Rightarrow> nat \<Rightarrow> error + 'a handle" where
  "fold_loop nodes acc 0 = fold_step nodes acc 0"
| "fold_loop nodes acc (Suc idx) =
     (case fold_step nodes acc (Suc idx) of
        Inl e \<Rightarrow> Inl e
      | Inr acc1 \<Rightarrow> fold_loop nodes acc1 idx)"

definition fold_slots :: "'a handle list \<Rightarrow> nat \<Rightarrow> error + 'a handle" where
  "fold_slots nodes currMaxInterval =
     (if currMaxInterval < length nodes then
        fold_loop (nodes[currMaxInterval := None]) (nodes ! currMaxInterval) currMaxInterval
      else Inl IndexOutOfBounds)"

definition balance :: "'a rope \<Rightarrow> (error option \<times> 'a rope) option" where
  "balance this =
     (if \<not> is_balanced this then
        (case build_fib_list (length_rope this) of
           None \<Rightarrow> None
         | Some (Inl e) \<Rightarrow> Some (Some e, this)
         | Some (Inr intervals) \<Rightarrow>
             (let nodes = replicate (length intervals) None;
                  leaves = (case root this of None \<Rightarrow> [] | Some n \<Rightarrow> getLeaves n);
                  max_i = size_sub (length intervals) 1
              in case insert_leaves intervals max_i leaves nodes 0 of
                   None \<Rightarrow> None
                 | Some (Inl e) \<Rightarrow> Some (Some e, this)
                 | Some (Inr (nodes1, currMaxInterval)) \<Rightarrow>
                     (case fold_slots nodes1 currMaxInterval of
                        Inl e \<Rightarrow> Some (Some e, this)
                      | Inr acc \<Rightarrow> Some (None, this\<lparr>root := acc\<rparr>))))
      else Some (None, this))"

section \<open>Invariants\<close>

text \<open>
  \<open>well_formed\<close> is the invariant that \<^verbatim>\<open>node.hpp\<close> documents: a leaf has the weight
  of its fragment; an internal node has both children, the length of the left one as its
  weight, and an empty fragment.
\<close>

fun well_formed :: "'a rope_node \<Rightarrow> bool" where
  "well_formed (Node w l r f) =
     (if l = None \<and> r = None then w = length f
      else (case l of None \<Rightarrow> False | Some ln \<Rightarrow> well_formed ln \<and> w = length_node ln)
           \<and> (case r of None \<Rightarrow> False | Some rn \<Rightarrow> well_formed rn)
           \<and> f = [])"

text \<open>
  What the operations really maintain is weaker: the right child of an internal node may be
  absent (\<open>weights_ok\<close>), but not along the right spine of a root (\<open>closed\<close>).
\<close>

fun weights_ok :: "'a rope_node \<Rightarrow> bool" where
  "weights_ok (Node w l r f) =
     (if l = None \<and> r = None then w = length f
      else (case l of None \<Rightarrow> False | Some ln \<Rightarrow> weights_ok ln \<and> w = length_node ln)
           \<and> (case r of None \<Rightarrow> True | Some rn \<Rightarrow> weights_ok rn))"

fun closed :: "'a rope_node \<Rightarrow> bool" where
  "closed (Node w l r f) =
     (if l = None \<and> r = None then True
      else (case r of None \<Rightarrow> False | Some rn \<Rightarrow> closed rn))"

definition rope_inv :: "'a rope \<Rightarrow> bool" where
  "rope_inv this = (case root this of None \<Rightarrow> False | Some n \<Rightarrow> weights_ok n \<and> closed n)"

text \<open>Every node is a leaf or has both children.\<close>

fun no_single_child :: "'a rope_node \<Rightarrow> bool" where
  "no_single_child (Node w l r f) =
     (case l of
        None \<Rightarrow> r = None
      | Some ln \<Rightarrow> (case r of None \<Rightarrow> False | Some rn \<Rightarrow> no_single_child ln \<and> no_single_child rn))"

text \<open>
  The standard Fibonacci sequence, as the spec states it: \<open>Fib 1 = Fib 2 = 1\<close> and
  \<open>Fib n = Fib (n - 1) + Fib (n - 2)\<close>. \<open>Fib_pred m\<close> stands for \<open>Fib (m - 1)\<close>, with the
  value 1 at 0.
\<close>

fun Fib :: "nat \<Rightarrow> nat" where
  "Fib 0 = 0"
| "Fib (Suc 0) = 1"
| "Fib (Suc (Suc n)) = Fib (Suc n) + Fib n"

definition Fib_pred :: "nat \<Rightarrow> nat" where
  "Fib_pred m = (if m = 0 then 1 else Fib (m - 1))"

text \<open>One call \<^verbatim>\<open>append("x")\<close>, to build deep ropes by iteration.\<close>

definition append_x :: "char rope \<Rightarrow> char rope" where
  "append_x r = snd (append_str r ''x'')"

text \<open>
  For the proof that \<open>balance\<close> keeps the content. The slots hold the text read so far, the
  slot of highest index first (\<open>slots_string\<close>). \<open>intervals_ok\<close> is what is used of the
  list of \<^verbatim>\<open>build_fib_list\<close>; \<open>slots_inv\<close> holds between two leaves, and
  \<open>acc_inv\<close> while the node \<open>a\<close> is looking for its slot from index \<open>i\<close> on.
\<close>

definition handle_string :: "'a handle \<Rightarrow> 'a list" where
  "handle_string h = (case h of None \<Rightarrow> [] | Some x \<Rightarrow> tree_to_string x)"

definition slots_string :: "'a handle list \<Rightarrow> 'a list" where
  "slots_string nodes = concat (map handle_string (rev nodes))"

definition intervals_ok :: "nat list \<Rightarrow> nat \<Rightarrow> bool" where
  "intervals_ok ivs limit =
     (2 \<le> length ivs \<and> ivs ! 0 = 1 \<and> limit < last ivs
      \<and> (\<forall>j. j + 1 < length ivs \<longrightarrow> ivs ! (j + 1) \<le> 2 * ivs ! j))"

definition slot_ok :: "nat list \<Rightarrow> 'a handle list \<Rightarrow> bool" where
  "slot_ok ivs nodes =
     (length nodes = length ivs
      \<and> (\<forall>j < length nodes. \<forall>x. nodes ! j = Some x \<longrightarrow>
            weights_ok x \<and> closed x \<and> ivs ! j \<le> length_node x))"

definition slots_inv :: "nat list \<Rightarrow> nat \<Rightarrow> 'a list \<Rightarrow> 'a handle list \<Rightarrow> bool" where
  "slots_inv ivs cm s nodes =
     (slot_ok ivs nodes \<and> slots_string nodes = s
      \<and> (\<forall>j. cm < j \<longrightarrow> j < length nodes \<longrightarrow> nodes ! j = None)
      \<and> cm < length nodes \<and> (nodes ! cm \<noteq> None \<or> cm = 0))"

definition acc_inv ::
  "nat list \<Rightarrow> nat \<Rightarrow> nat \<Rightarrow> 'a list \<Rightarrow> nat \<Rightarrow> 'a rope_node \<Rightarrow> 'a handle list \<Rightarrow> bool" where
  "acc_inv ivs limit cm s i a nodes =
     (slot_ok ivs nodes \<and> i < length nodes \<and> (\<forall>j < i. nodes ! j = None)
      \<and> weights_ok a \<and> closed a \<and> ivs ! i \<le> length_node a
      \<and> slots_string nodes @ tree_to_string a = s \<and> length s \<le> limit
      \<and> (\<forall>j. cm < j \<longrightarrow> j < length nodes \<longrightarrow> nodes ! j = None)
      \<and> cm < length nodes \<and> (nodes ! cm \<noteq> None \<or> cm \<le> i))"

section \<open>Basic facts\<close>

lemma rope_node_copy_id: "rope_node_copy n = n"
  by (induction n) (auto split: option.splits)

lemma length_node_concat:
  "rope_node_concat (Some a) (Some b) = Inr n \<Longrightarrow> length_node n = length_node a + length_node b"
  by (auto simp: rope_node_concat_def)

text \<open>
  C9. The internal node built from two nodes \<open>a\<close> and \<open>b\<close> has weight
  \<open>length a\<close> and length \<open>length a + length b\<close>; and \<open>append\<close>, on a rope and an argument
  that both have a root, returns normally with the length increased by the length of the
  argument.
\<close>

theorem length_additivity:
  "(\<exists>n. rope_node_concat (Some a) (Some b) = Inr n \<and> weight n = length_node a
        \<and> length_node n = length_node a + length_node b)
   \<and> (root this \<noteq> None \<and> root other \<noteq> None \<longrightarrow>
        fst (append_rope this other) = None
        \<and> length_rope (snd (append_rope this other)) = length_rope this + length_rope other)"
  by (auto simp: rope_node_concat_def append_rope_def rope_copy_def length_rope_def
      rope_node_copy_id)

theorem length_additivity_witness:
  "root (rope_of ''some'') \<noteq> None \<and> root (rope_of ''text'') \<noteq> None
   \<and> fst (append_rope (rope_of ''some'') (rope_of ''text'')) = None
   \<and> length_rope (snd (append_rope (rope_of ''some'') (rope_of ''text'')))
       = length_rope (rope_of ''some'') + length_rope (rope_of ''text'')"
  using length_additivity [of "Node 0 None None ''a''" "Node 0 None None ''b''"
      "rope_of ''some''" "rope_of ''text''"]
  by (simp add: rope_of_def)

lemma well_formed_weights_ok: "well_formed n \<Longrightarrow> weights_ok n \<and> closed n"
  by (induction n) (auto split: option.splits if_splits)

lemma length_node_string: "weights_ok n \<Longrightarrow> length_node n = length (tree_to_string n)"
  by (induction n) (auto split: option.splits if_splits)

lemma split_spec:
  "weights_ok n \<Longrightarrow> k \<le> length_node n \<Longrightarrow>
   \<exists>l r'. split (Some n) k = Inr (Some l, r') \<and> weights_ok l
     \<and> tree_to_string l = take k (tree_to_string n)
     \<and> (r' = None \<longrightarrow> \<not> closed n \<and> k = length_node n)
     \<and> (\<forall>r. r' = Some r \<longrightarrow> weights_ok r \<and> tree_to_string r = drop k (tree_to_string n)
            \<and> (closed n \<longrightarrow> closed r))"
proof (induction n arbitrary: k)
  case (Node w l r f)
  show ?case
  proof (cases "l = None \<and> r = None")
    case True
    with Node.prems show ?thesis
      by (simp add: string_substr_def size_sub_def rope_node_leaf_def)
  next
    case False
    with Node.prems obtain ln where l: "l = Some ln" and wl: "weights_ok ln" and w: "w = length_node ln"
      by (auto split: option.splits)
    have sl: "length (tree_to_string ln) = w" using wl w by (simp add: length_node_string)
    consider "k < w" | "w < k" | "k = w" by linarith
    then show ?thesis
    proof cases
      case 1
      have kl: "k \<le> length_node ln" using 1 w by simp
      have "ln \<in> set_option l" using l by simp
      from Node.IH(1)[OF this wl kl]
      obtain a b' where ab: "split (Some ln) k = Inr (Some a, b')" "weights_ok a"
        "tree_to_string a = take k (tree_to_string ln)"
        "b' = None \<longrightarrow> \<not> closed ln \<and> k = length_node ln"
        "\<forall>b. b' = Some b \<longrightarrow> weights_ok b \<and> tree_to_string b = drop k (tree_to_string ln)
            \<and> (closed ln \<longrightarrow> closed b)"
        by auto
      from ab(4) 1 w obtain b where b: "b' = Some b" by (cases b') auto
      have la: "length_node a = k" using ab(2,3) sl 1 by (simp add: length_node_string)
      show ?thesis using False l 1 ab b la Node.prems sl
        by (auto simp: rope_node_concat_def split: option.splits)
    next
      case 2
      with Node.prems False l obtain rn where r: "r = Some rn" and wr: "weights_ok rn"
        by (auto split: option.splits)
      have kr: "k - w \<le> length_node rn" using Node.prems False l r 2 by auto
      have "rn \<in> set_option r" using r by simp
      from Node.IH(2)[OF this wr kr]
      obtain a b' where ab: "split (Some rn) (k - w) = Inr (Some a, b')" "weights_ok a"
        "tree_to_string a = take (k - w) (tree_to_string rn)"
        "b' = None \<longrightarrow> \<not> closed rn \<and> k - w = length_node rn"
        "\<forall>b. b' = Some b \<longrightarrow> weights_ok b \<and> tree_to_string b = drop (k - w) (tree_to_string rn)
            \<and> (closed rn \<longrightarrow> closed b)"
        by auto
      show ?thesis using False l r 2 ab Node.prems sl wl w
        by (auto split: option.splits)
    next
      case 3
      show ?thesis using False l 3 Node.prems sl wl w
        by (auto split: option.splits)
    qed
  qed
qed

lemma split_closed:
  assumes "weights_ok n" "closed n" "k \<le> length_node n"
  obtains l r where "split (Some n) k = Inr (Some l, Some r)" "weights_ok l" "weights_ok r"
    "closed r" "tree_to_string l = take k (tree_to_string n)"
    "tree_to_string r = drop k (tree_to_string n)"
proof -
  from split_spec[OF assms(1,3)] obtain l r' where
    s: "split (Some n) k = Inr (Some l, r')" "weights_ok l"
     "tree_to_string l = take k (tree_to_string n)"
     "r' = None \<longrightarrow> \<not> closed n \<and> k = length_node n"
     "\<forall>r. r' = Some r \<longrightarrow> weights_ok r \<and> tree_to_string r = drop k (tree_to_string n)
            \<and> (closed n \<longrightarrow> closed r)"
    by blast
  from s(4) assms(2) obtain r where r: "r' = Some r" by (cases r') auto
  with s assms(2) that show thesis by blast
qed

text \<open>
  C1. For a well-formed node \<open>N\<close> and \<open>k \<le> length N\<close>, \<open>split\<close> returns two nodes: the
  left one represents the first \<open>k\<close> elements of the string of \<open>N\<close>, the right one the rest,
  their lengths add up to the length of \<open>N\<close>, and their concatenation has the string of \<open>N\<close>.
\<close>

theorem split_correct:
  assumes "well_formed N" and "k \<le> length_node N"
  shows "\<exists>l r. split (Some N) k = Inr (Some l, Some r)
           \<and> tree_to_string l = take k (tree_to_string N)
           \<and> tree_to_string r = drop k (tree_to_string N)
           \<and> length_node l = k
           \<and> length_node l + length_node r = length_node N
           \<and> (\<exists>c. rope_node_concat (Some l) (Some r) = Inr c
                  \<and> tree_to_string c = tree_to_string N)"
proof -
  from assms(1) have w: "weights_ok N" and c: "closed N"
    by (simp_all add: well_formed_weights_ok)
  from split_closed[OF w c assms(2)] obtain l r where
    s: "split (Some N) k = Inr (Some l, Some r)" "weights_ok l" "weights_ok r"
    "closed r" "tree_to_string l = take k (tree_to_string N)"
    "tree_to_string r = drop k (tree_to_string N)" .
  have k: "k \<le> length (tree_to_string N)" using assms(2) w by (simp add: length_node_string)
  have ll: "length_node l = k" using s(2,5) k by (simp add: length_node_string)
  have lr: "length_node r = length_node N - k" using s(3,6) w by (simp add: length_node_string)
  show ?thesis using s ll lr assms(2)
    by (simp add: rope_node_concat_def)
qed

theorem split_correct_witness:
  "well_formed (Node 4 (Some (rope_node_leaf ''some'')) (Some (rope_node_leaf ''text'')) [])
   \<and> split (Some (Node 4 (Some (rope_node_leaf ''some'')) (Some (rope_node_leaf ''text'')) [])) 2
       = Inr (Some (Node 2 (Some (rope_node_leaf ''so'')) None []),
              Some (Node 2 (Some (rope_node_leaf ''me'')) (Some (rope_node_leaf ''text'')) []))
   \<and> (\<exists>l r. split (Some (Node 4 (Some (rope_node_leaf ''some'')) (Some (rope_node_leaf ''text'')) [])) 2
           = Inr (Some l, Some r)
        \<and> tree_to_string l = ''so'' \<and> tree_to_string r = ''metext''
        \<and> length_node l + length_node r = 8)"
  using split_correct [of "Node 4 (Some (rope_node_leaf ''some'')) (Some (rope_node_leaf ''text'')) []" 2]
  by (simp add: rope_node_leaf_def string_substr_def size_sub_def rope_node_concat_def)

text \<open>
  C3 (the code departs from the claim). The rope \<open>''some''\<close> with \<open>''text''\<close> appended is an
  internal node of weight 4. Inserting \<open>''!!''\<close> at index 2 goes through the branch
  \<open>index < w\<close> of \<open>split\<close>, which hands back the node itself with its right child
  set to null: the tree that \<open>insert\<close> leaves has a node with a left child only.
\<close>

theorem insert_makes_single_child:
  "insert_str (snd (append_str (rope_of ''some'') ''text'')) 2 ''!!'' =
     (None, \<lparr>root = Some (Node 4
        (Some (Node 2 (Some (Node 2 (Some (Node 2 None None ''so'')) None []))
                      (Some (Node 2 None None ''!!'')) []))
        (Some (Node 2 (Some (Node 2 None None ''me'')) (Some (Node 4 None None ''text'')) []))
        [])\<rparr>)
   \<and> \<not> no_single_child (Node 4
        (Some (Node 2 (Some (Node 2 (Some (Node 2 None None ''so'')) None []))
                      (Some (Node 2 None None ''!!'')) []))
        (Some (Node 2 (Some (Node 2 None None ''me'')) (Some (Node 4 None None ''text'')) []))
        [])"
  by (simp add: insert_str_def insert_rope_def append_str_def rope_of_def rope_node_leaf_def
      rope_copy_def rope_node_concat_def length_rope_def string_substr_def size_sub_def)

text \<open>
  C2 (the code departs from the claim). On the rope \<open>''some''\<close> with \<open>''text''\<close>
  appended, \<open>substr(2, 4)\<close> returns \<open>''some''\<close>, not \<open>''mete''\<close>: the left leaf
  has \<open>len \<ge> weight\<close> and returns its whole fragment whatever \<open>start\<close> is, and the right
  leaf is asked for the elements from offset \<open>w = 4\<close>, of which there are none.
\<close>

theorem substr_sometext:
  "to_string (snd (append_str (rope_of ''some'') ''text'')) = ''sometext''
   \<and> substr_rope (snd (append_str (rope_of ''some'') ''text'')) 2 4 = Inr ''some''"
  by (simp add: append_str_def rope_of_def rope_node_leaf_def to_string_def
      rope_node_concat_def length_rope_def substr_rope_def getSubstring_def
      string_substr_def size_sub_def size_add_def SIZE_MOD_def)

text \<open>
  C7 (the code departs from the claim). \<open>start + len\<close> is computed in \<^verbatim>\<open>size_t\<close>:
  with \<open>start = 1\<close> and \<open>len = 2 ^ 64 - 1\<close> the sum wraps to 0 and the check of
  \<open>erase\<close> lets the call through. The first \<open>split\<close> has moved the root out when the
  second one throws \<^verbatim>\<open>std::out_of_range\<close> from \<^verbatim>\<open>substr\<close>: the exception leaves
  the rope with a null root, so with length 0.
\<close>

theorem erase_wraps:
  "length_rope (rope_of ''abcde'') = 5
   \<and> size_add 1 18446744073709551615 = 0
   \<and> erase (rope_of ''abcde'') 1 18446744073709551615 = (Some OutOfRange, \<lparr>root = None\<rparr>)
   \<and> substr_rope (rope_of ''abcde'') 1 18446744073709551615 = Inr ''abcde''"
  by (simp add: erase_def substr_rope_def getSubstring_def rope_of_def rope_node_leaf_def
      length_rope_def string_substr_def size_sub_def size_add_def SIZE_MOD_def)

lemma getCharByIndex_in_range:
  "weights_ok n \<Longrightarrow> i < length_node n \<Longrightarrow> getCharByIndex n i = Inr (tree_to_string n ! i)"
proof (induction n arbitrary: i)
  case (Node w l r f)
  show ?case
  proof (cases "l = None \<and> r = None")
    case True
    with Node.prems show ?thesis by simp
  next
    case False
    with Node.prems obtain ln where l: "l = Some ln" and wl: "weights_ok ln" and w: "w = length_node ln"
      by (auto split: option.splits)
    have sl: "length (tree_to_string ln) = w" using wl w by (simp add: length_node_string)
    show ?thesis
    proof (cases "i < w")
      case True
      have "ln \<in> set_option l" using l by simp
      from Node.IH(1)[OF this wl] True w have "getCharByIndex ln i = Inr (tree_to_string ln ! i)"
        by simp
      with True False l sl show ?thesis by (simp add: nth_append)
    next
      case F: False
      with Node.prems False l obtain rn where r: "r = Some rn" and wr: "weights_ok rn"
        by (auto split: option.splits)
      have ir: "i - w < length_node rn" using Node.prems False l r F by auto
      have "rn \<in> set_option r" using r by simp
      from Node.IH(2)[OF this wr ir] F False l r sl show ?thesis by (simp add: nth_append)
    qed
  qed
qed

lemma getCharByIndex_out_of_range:
  "weights_ok n \<Longrightarrow> closed n \<Longrightarrow> length_node n \<le> i \<Longrightarrow> getCharByIndex n i = Inl OutOfRange"
proof (induction n arbitrary: i)
  case (Node w l r f)
  show ?case
  proof (cases "l = None \<and> r = None")
    case True
    with Node.prems show ?thesis by simp
  next
    case False
    with Node.prems obtain rn where r: "r = Some rn" and wr: "weights_ok rn" and cr: "closed rn"
      by (auto split: option.splits)
    have ir: "length_node rn \<le> i - w" "\<not> i < w" using Node.prems False r by auto
    have "rn \<in> set_option r" using r by simp
    from Node.IH(2)[OF this wr cr ir(1)] ir(2) False r show ?thesis by simp
  qed
qed

lemma getCharByIndex_get_item_safe: "getCharByIndex n i = get_item_safe n i"
  by (induction n arbitrary: i) (auto split: option.splits)

text \<open>
  C4. For a rope without a root, or one that satisfies the invariant of the operations,
  \<open>at\<close> raises the out-of-range error exactly for the indices \<open>index \<ge> length\<close>, and
  returns the element of the string at any smaller index; so \<open>at(length)\<close> fails and, on a
  non-empty rope, \<open>at(length - 1)\<close> succeeds.
\<close>

theorem at_out_of_range:
  assumes "root R = None \<or> rope_inv R"
  shows "(at R i = Inl OutOfRange \<longleftrightarrow> length_rope R \<le> i)
         \<and> (i < length_rope R \<longrightarrow> at R i = Inr (to_string R ! i))
         \<and> at R (length_rope R) = Inl OutOfRange
         \<and> (0 < length_rope R \<longrightarrow>
              at R (length_rope R - 1) = Inr (to_string R ! (length_rope R - 1)))"
proof (cases "root R")
  case None
  then show ?thesis by (simp add: at_def length_rope_def)
next
  case (Some n)
  with assms have w: "weights_ok n" and c: "closed n" by (simp_all add: rope_inv_def)
  have a: "\<And>j. length_node n \<le> j \<Longrightarrow> at R j = Inl OutOfRange"
    using Some getCharByIndex_out_of_range[OF w c] by (simp add: at_def)
  have b: "\<And>j. j < length_node n \<Longrightarrow> at R j = Inr (tree_to_string n ! j)"
    using Some getCharByIndex_in_range[OF w] by (simp add: at_def)
  have l: "length_rope R = length_node n" "to_string R = tree_to_string n"
    using Some by (simp_all add: length_rope_def to_string_def)
  show ?thesis
  proof (cases "i < length_node n")
    case True
    then show ?thesis using a[of "length_node n"] b[of i] b[of "length_node n - 1"] l by auto
  next
    case False
    then show ?thesis using a[of "length_node n"] a[of i] b[of "length_node n - 1"] l by auto
  qed
qed

theorem at_out_of_range_witness:
  "rope_inv (snd (append_str (rope_of ''some'') ''text''))
   \<and> length_rope (snd (append_str (rope_of ''some'') ''text'')) = 8
   \<and> at (snd (append_str (rope_of ''some'') ''text'')) 8 = Inl OutOfRange
   \<and> at (snd (append_str (rope_of ''some'') ''text'')) 7 = Inr (CHR ''t'')
   \<and> at (rope_default :: char rope) 0 = Inl OutOfRange
   \<and> root \<lparr>root = (None :: char handle)\<rparr> = None
   \<and> at \<lparr>root = (None :: char handle)\<rparr> 0 = Inl OutOfRange"
  using at_out_of_range [of "snd (append_str (rope_of ''some'') ''text'')" 8]
    at_out_of_range [of "snd (append_str (rope_of ''some'') ''text'')" 7]
    at_out_of_range [of "rope_default :: char rope" 0]
    at_out_of_range [of "\<lparr>root = (None :: char handle)\<rparr>" 0]
  by (simp add: append_str_def rope_of_def rope_default_def rope_node_leaf_def rope_inv_def
      rope_node_concat_def length_rope_def to_string_def)

lemma get_item_out_of_range:
  "weights_ok n \<Longrightarrow> closed n \<Longrightarrow> length_node n \<le> i \<Longrightarrow>
   get_item nul n i = (if i = length_node n then Inr nul else Inl IndexOutOfBounds)"
proof (induction n arbitrary: i)
  case (Node w l r f)
  show ?case
  proof (cases "l = None \<and> r = None")
    case True
    with Node.prems show ?thesis by auto
  next
    case False
    with Node.prems obtain rn where r: "r = Some rn" and wr: "weights_ok rn" and cr: "closed rn"
      by (auto split: option.splits)
    have ir: "length_node rn \<le> i - w" "\<not> i < w" using Node.prems False r by auto
    have eq: "i - w = length_node rn \<longleftrightarrow> i = w + length_node rn" using ir(2) by auto
    have "rn \<in> set_option r" using r by simp
    from Node.IH(2)[OF this wr cr ir(1)] ir(2) False r eq show ?thesis by simp
  qed
qed

lemma rope_inv_rope_of: "rope_inv (rope_of s)"
  by (simp add: rope_inv_def rope_of_def rope_node_leaf_def)

lemma to_string_rope_of: "to_string (rope_of s) = s"
  by (simp add: to_string_def rope_of_def rope_node_leaf_def)

lemma length_rope_string: "rope_inv R \<Longrightarrow> length_rope R = length (to_string R)"
  by (auto simp: rope_inv_def length_rope_def to_string_def length_node_string
      split: option.splits)

lemma is_leaf_Node: "is_leaf (Node w l r f) \<longleftrightarrow> l = None \<and> r = None"
  by (simp add: is_leaf_def)

lemma append_rope_spec:
  assumes "rope_inv R" and "rope_inv S"
  shows "\<exists>R'. append_rope R S = (None, R') \<and> rope_inv R'
           \<and> to_string R' = to_string R @ to_string S"
  using assms
  by (auto simp: append_rope_def rope_copy_def rope_node_copy_id rope_node_concat_def
      rope_inv_def to_string_def split: option.splits)

lemma insert_rope_spec:
  assumes R: "rope_inv R" and S: "rope_inv S" and i: "i \<le> length_rope R"
  shows "\<exists>R'. insert_rope R i S = (None, R') \<and> rope_inv R'
           \<and> to_string R' = take i (to_string R) @ to_string S @ drop i (to_string R)"
proof -
  from R obtain n where n: "root R = Some n" "weights_ok n" "closed n"
    by (auto simp: rope_inv_def split: option.splits)
  from S obtain m where m: "root S = Some m" "weights_ok m" "closed m"
    by (auto simp: rope_inv_def split: option.splits)
  from i n have k: "i \<le> length_node n" by (simp add: length_rope_def)
  from split_closed[OF n(2,3) k] obtain l r where
    s: "split (Some n) i = Inr (Some l, Some r)" "weights_ok l" "weights_ok r"
    "closed r" "tree_to_string l = take i (tree_to_string n)"
    "tree_to_string r = drop i (tree_to_string n)" .
  show ?thesis using n m s i
    by (simp add: insert_rope_def rope_copy_def rope_node_copy_id rope_node_concat_def
        rope_inv_def to_string_def)
qed

lemma erase_spec:
  assumes R: "rope_inv R" and le: "start + len \<le> length_rope R" and sz: "start + len < SIZE_MOD"
  shows "\<exists>R'. erase R start len = (None, R') \<and> rope_inv R'
           \<and> to_string R' = take start (to_string R) @ drop (start + len) (to_string R)"
proof -
  from R obtain n where n: "root R = Some n" "weights_ok n" "closed n"
    by (auto simp: rope_inv_def split: option.splits)
  from le n have k: "start \<le> length_node n" by (simp add: length_rope_def)
  from split_closed[OF n(2,3) k] obtain l r where
    s: "split (Some n) start = Inr (Some l, Some r)" "weights_ok l" "weights_ok r"
    "closed r" "tree_to_string l = take start (tree_to_string n)"
    "tree_to_string r = drop start (tree_to_string n)" .
  have "length_node r = length_node n - start"
    using s(3,6) n(2) by (simp add: length_node_string)
  with le n have k2: "len \<le> length_node r" by (simp add: length_rope_def)
  from split_closed[OF s(3,4) k2] obtain l2 r2 where
    s2: "split (Some r) len = Inr (Some l2, Some r2)" "weights_ok l2" "weights_ok r2"
    "closed r2" "tree_to_string l2 = take len (tree_to_string r)"
    "tree_to_string r2 = drop len (tree_to_string r)" .
  have chk: "\<not> (start > length_rope R \<or> size_add start len > length_rope R)"
    using le sz by (simp add: size_add_def)
  show ?thesis using n s s2 chk
    by (simp add: erase_def Let_def rope_node_concat_def rope_inv_def to_string_def add.commute)
qed

text \<open>
  C6. For ropes \<open>R\<close> and \<open>S\<close> that satisfy the invariant of the operations and
  \<open>i \<le> length R\<close>, where the result fits in \<^verbatim>\<open>size_t\<close>: \<open>insert(i, S)\<close> returns
  normally and the content is the first \<open>i\<close> elements of \<open>R\<close>, then \<open>S\<close>, then the rest of
  \<open>R\<close>; and \<open>erase(i, length S)\<close> on the result returns normally and gives back the
  content of \<open>R\<close>.
\<close>

theorem insert_erase_inverse:
  assumes "rope_inv R" and "rope_inv S" and "i \<le> length_rope R"
    and "length_rope R + length_rope S < SIZE_MOD"
  shows "\<exists>R'. insert_rope R i S = (None, R')
           \<and> to_string R' = take i (to_string R) @ to_string S @ drop i (to_string R)
           \<and> (\<exists>R''. erase R' i (length_rope S) = (None, R'') \<and> to_string R'' = to_string R)"
proof -
  from insert_rope_spec[OF assms(1,2,3)] obtain R' where
    ins: "insert_rope R i S = (None, R')" "rope_inv R'"
     "to_string R' = take i (to_string R) @ to_string S @ drop i (to_string R)"
    by blast
  have lR: "length_rope R = length (to_string R)" and lS: "length_rope S = length (to_string S)"
    using assms(1,2) by (simp_all add: length_rope_string)
  have lR': "length_rope R' = length_rope R + length_rope S"
    using ins(2,3) assms(3) lR lS by (simp add: length_rope_string)
  have le: "i + length_rope S \<le> length_rope R'" using lR' assms(3) by simp
  have sz: "i + length_rope S < SIZE_MOD" using assms(3,4) by simp
  from erase_spec[OF ins(2) le sz] obtain R'' where
    er: "erase R' i (length_rope S) = (None, R'')"
     "to_string R'' = take i (to_string R') @ drop (i + length_rope S) (to_string R')"
    by blast
  have "to_string R'' = to_string R"
    using er(2) ins(3) assms(3) lR lS by (simp add: min_absorb2)
  with ins er show ?thesis by blast
qed

theorem insert_erase_inverse_witness:
  "rope_inv (snd (append_str (rope_of ''some'') ''text'')) \<and> rope_inv (rope_of ''!!'')
   \<and> (4::nat) \<le> length_rope (snd (append_str (rope_of ''some'') ''text''))
   \<and> length_rope (snd (append_str (rope_of ''some'') ''text'')) + length_rope (rope_of ''!!'') < SIZE_MOD
   \<and> (\<exists>R'. insert_rope (snd (append_str (rope_of ''some'') ''text'')) 4 (rope_of ''!!'') = (None, R')
         \<and> to_string R' = ''some!!text''
         \<and> (\<exists>R''. erase R' 4 (length_rope (rope_of ''!!'')) = (None, R'')
                \<and> to_string R'' = ''sometext''))"
  using insert_erase_inverse [of "snd (append_str (rope_of ''some'') ''text'')" "rope_of ''!!''" 4]
  by (simp add: append_str_def rope_of_def rope_node_leaf_def rope_inv_def
      rope_node_concat_def length_rope_def to_string_def SIZE_MOD_def)

lemma fib_2: "fib 2 = 1"
  by (simp add: fib_def SIZE_MOD_def)

lemma fib_Suc_Suc_0: "fib (Suc (Suc 0)) = 1"
  using fib_2 by (simp add: numeral_2_eq_2)

lemma build_fib_list_0: "build_fib_list 0 = Some (Inr [])"
  by (simp add: build_fib_list_def build_fib_loop.simps INT_MAX_def)

text \<open>
  C10. The default-constructed rope, which is also the rope of the empty sequence, has a root: a
  leaf with an empty fragment. It is not balanced, since its length 0 is below \<open>fib 2 = 1\<close>.
  In \<open>balance\<close> the interval list and the slot vector are empty, \<open>max_i\<close> wraps to
  \<open>2 ^ 64 - 1\<close>, the loop over the leaves skips the one empty leaf, and the last phase reads
  slot 0 of the empty vector: \<open>balance\<close> ends in an out-of-bounds access.
\<close>

theorem balance_default_out_of_bounds:
  "root (rope_default :: 'a rope) = Some (Node 0 None None [])
   \<and> rope_of [] = (rope_default :: 'a rope)
   \<and> \<not> is_balanced (rope_default :: 'a rope)
   \<and> build_fib_list (length_rope (rope_default :: 'a rope)) = Some (Inr [])
   \<and> size_sub (length ([] :: nat list)) 1 = 2 ^ 64 - 1
   \<and> insert_leaves [] (2 ^ 64 - 1) (getLeaves (Node 0 None None ([] :: 'a list))) [] 0
        = Some (Inr ([], 0))
   \<and> fold_slots ([] :: 'a handle list) 0 = Inl IndexOutOfBounds
   \<and> balance (rope_default :: 'a rope) = Some (Some IndexOutOfBounds, rope_default)"
  by (simp add: rope_default_def rope_of_def rope_node_leaf_def is_balanced_def
      length_rope_def size_add_def size_sub_def SIZE_MOD_def fib_Suc_Suc_0 build_fib_list_0
      fold_slots_def balance_def)

lemma Fib_add: "Fib (n + k + 1) = Fib (k + 1) * Fib (n + 1) + Fib k * Fib n"
  by (induction n rule: Fib.induct) (auto simp: algebra_simps)

lemma Fib_sum: "Fib (m + p) = Fib m * Fib (p + 1) + Fib_pred m * Fib p"
proof (cases m)
  case 0
  then show ?thesis by (simp add: Fib_pred_def)
next
  case (Suc k)
  then show ?thesis using Fib_add[of p k] by (simp add: Fib_pred_def algebra_simps)
qed

lemma Fib_pred_sum: "Fib_pred (m + p) = Fib m * Fib p + Fib_pred m * Fib_pred p"
proof (cases m)
  case 0
  then show ?thesis by (simp add: Fib_pred_def)
next
  case m: (Suc k)
  show ?thesis
  proof (cases p)
    case 0
    then show ?thesis using m by (simp add: Fib_pred_def)
  next
    case (Suc j)
    then show ?thesis using m Fib_add[of j k] by (simp add: Fib_pred_def algebra_simps)
  qed
qed

lemma mod_sum_prod:
  "((x mod M) * (y mod M) + (z mod M) * (w mod M)) mod M = (x * y + z * w) mod (M::nat)"
  by (metis mod_add_eq mod_mult_eq)

lemma fib_loop_Fib:
  "a = Fib (p + 1) mod SIZE_MOD \<Longrightarrow> b = Fib p mod SIZE_MOD \<Longrightarrow> c = Fib p mod SIZE_MOD \<Longrightarrow>
   d = Fib_pred p mod SIZE_MOD \<Longrightarrow> rc = Fib m mod SIZE_MOD \<Longrightarrow> rd = Fib_pred m mod SIZE_MOD \<Longrightarrow>
   fib_loop n a b c d rc rd = Fib (m + n * p) mod SIZE_MOD"
proof (induction n a b c d rc rd arbitrary: p m rule: fib_loop.induct)
  case (1 n a b c d rc rd)
  show ?case
  proof (cases "n = 0")
    case True
    with 1 show ?thesis by simp
  next
    case False
    let ?M = SIZE_MOD
    have e1: "Fib (2 * p + 1) = Fib (p + 1) * Fib (p + 1) + Fib p * Fib p"
      using Fib_sum[of "p + 1" p] unfolding mult_2 by (simp add: Fib_pred_def)
    have e2: "Fib (2 * p) = Fib (p + 1) * Fib p + Fib p * Fib_pred p"
      using Fib_sum[of p p] unfolding mult_2 by (simp add: mult.commute)
    have e3: "Fib_pred (2 * p) = Fib p * Fib p + Fib_pred p * Fib_pred p"
      using Fib_pred_sum[of p p] unfolding mult_2 by simp
    have a': "(a * a + b * c) mod ?M = Fib (2 * p + 1) mod ?M"
      unfolding e1 "1.prems" by (rule mod_sum_prod)
    have b': "(a * b + b * d) mod ?M = Fib (2 * p) mod ?M"
      unfolding e2 "1.prems" by (rule mod_sum_prod)
    have c': "(c * a + d * c) mod ?M = Fib (2 * p) mod ?M"
      unfolding e2 "1.prems" mult.commute[of "Fib (p + 1)" "Fib p"] mult.commute[of "Fib p" "Fib_pred p"]
      by (rule mod_sum_prod)
    have d': "(c * b + d * d) mod ?M = Fib_pred (2 * p) mod ?M"
      unfolding e3 "1.prems" by (rule mod_sum_prod)
    define m' where "m' = (if n mod 2 = 1 then m + p else m)"
    have "(rc * a + rd * c) mod ?M = Fib (m + p) mod ?M"
      unfolding Fib_sum[of m p] "1.prems" by (rule mod_sum_prod)
    then have rc': "(if n mod 2 = 1 then (rc * a + rd * c) mod ?M else rc) = Fib m' mod ?M"
      by (simp add: "1.prems" m'_def)
    have "(rc * b + rd * d) mod ?M = Fib_pred (m + p) mod ?M"
      unfolding Fib_pred_sum[of m p] "1.prems" by (rule mod_sum_prod)
    then have rd': "(if n mod 2 = 1 then (rc * b + rd * d) mod ?M else rd) = Fib_pred m' mod ?M"
      by (simp add: "1.prems" m'_def)
    have "fib_loop n a b c d rc rd =
          fib_loop (n div 2) ((a * a + b * c) mod ?M) ((a * b + b * d) mod ?M)
            ((c * a + d * c) mod ?M) ((c * b + d * d) mod ?M)
            (if n mod 2 = 1 then (rc * a + rd * c) mod ?M else rc)
            (if n mod 2 = 1 then (rc * b + rd * d) mod ?M else rd)"
      using False by (subst fib_loop.simps) simp
    also have "\<dots> = Fib (m' + (n div 2) * (2 * p)) mod ?M"
      by (rule "1.IH"[OF False]) (use a' b' c' d' rc' rd' in simp_all)
    also have "m' + (n div 2) * (2 * p) = m + n * p"
    proof -
      have "(n div 2) * (2 * p) + (n mod 2) * p = (2 * (n div 2) + n mod 2) * p"
        by (simp only: add_mult_distrib add_mult_distrib2 ac_simps)
      also have "\<dots> = n * p"
        by (simp only: mult_div_mod_eq)
      finally have np: "n * p = (n div 2) * (2 * p) + (n mod 2) * p" by simp
      have "n mod 2 = 1 \<or> n mod 2 = 0" by auto
      then show ?thesis unfolding np m'_def by auto
    qed
    finally show ?thesis .
  qed
qed

lemma fib_Fib: "fib n = Fib n mod SIZE_MOD"
  unfolding fib_def using fib_loop_Fib[of 1 1 1 1 0 0 0 1 n]
  by (simp add: Fib_pred_def SIZE_MOD_def)

lemma Fib_mono_Suc: "Fib n \<le> Fib (Suc n)"
  by (induction n rule: Fib.induct) auto

lemma Fib_mono: "m \<le> n \<Longrightarrow> Fib m \<le> Fib n"
proof (induction n)
  case 0
  then show ?case by simp
next
  case (Suc n)
  show ?case
  proof (cases "m = Suc n")
    case True
    then show ?thesis by simp
  next
    case False
    with Suc have "Fib m \<le> Fib n" by simp
    also have "\<dots> \<le> Fib (Suc n)" by (rule Fib_mono_Suc)
    finally show ?thesis .
  qed
qed

lemma fib_94: "fib 94 = 1293530146158671551"
  by (simp add: fib_def SIZE_MOD_def)

lemma Fib_pred_plus: "Fib_pred p + Fib p = Fib (p + 1)"
  by (cases p rule: Fib.cases) (simp_all add: Fib_pred_def)

lemma Fib_odd: "Fib (2 * p + 1) = Fib (p + 1) * Fib (p + 1) + Fib p * Fib p"
  using Fib_sum[of "p + 1" p] unfolding mult_2 by (simp add: Fib_pred_def)

lemma Fib_even: "Fib (2 * p) + Fib p * Fib p = 2 * Fib p * Fib (p + 1)"
proof -
  have "Fib (2 * p) = Fib p * Fib (p + 1) + Fib_pred p * Fib p"
    using Fib_sum[of p p] unfolding mult_2 by simp
  then have "Fib (2 * p) + Fib p * Fib p = Fib p * Fib (p + 1) + (Fib_pred p + Fib p) * Fib p"
    by (simp add: algebra_simps)
  then show ?thesis unfolding Fib_pred_plus by simp
qed

lemma Fib_rec: "Fib (n + 2) = Fib (n + 1) + Fib n"
  by simp

lemma Fib_values:
  "Fib 45 = 1134903170" "Fib 46 = 1836311903" "Fib 47 = 2971215073"
  "Fib 92 = 7540113804746346429" "Fib 93 = 12200160415121876738"
  "Fib 94 = 19740274219868223167"
proof -
  have f2: "Fib 2 = 1" by (simp add: numeral_2_eq_2)
  have f3: "Fib 3 = 2" by (simp add: numeral_3_eq_3)
  have f5: "Fib 5 = 5" using Fib_odd[of 2] f2 f3 by simp
  have f6: "Fib 6 = 8" using Fib_even[of 3] f3 Fib_rec[of 2] f2 by simp
  have f11: "Fib 11 = 89" using Fib_odd[of 5] f5 f6 by simp
  have f12: "Fib 12 = 144" using Fib_even[of 6] f6 Fib_rec[of 5] f5 by simp
  have f23: "Fib 23 = 28657" using Fib_odd[of 11] f11 f12 by simp
  have f24: "Fib 24 = 46368" using Fib_even[of 12] f12 Fib_rec[of 11] f11 by simp
  have f46: "Fib 46 = 1836311903" using Fib_even[of 23] f23 f24 by simp
  have f47: "Fib 47 = 2971215073" using Fib_odd[of 23] f23 f24 by simp
  have f93: "Fib 93 = 12200160415121876738" using Fib_odd[of 46] f46 f47 by simp
  have f45: "Fib 45 = 1134903170" using Fib_rec[of 45] f46 f47 by simp
  have f48: "Fib 48 = 4807526976" using Fib_rec[of 46] f46 f47 by simp
  have f94: "Fib 94 = 19740274219868223167" using Fib_even[of 47] f47 f48 by simp
  have f92: "Fib 92 = 7540113804746346429" using Fib_rec[of 92] f93 f94 by simp
  show "Fib 45 = 1134903170" "Fib 46 = 1836311903" "Fib 47 = 2971215073"
    "Fib 92 = 7540113804746346429" "Fib 93 = 12200160415121876738"
    "Fib 94 = 19740274219868223167" by (fact f45 f46 f47 f92 f93 f94)+
qed

lemma fib_small: "n \<le> 93 \<Longrightarrow> fib n = Fib n"
  using Fib_mono[of n 93] by (simp add: fib_Fib Fib_values SIZE_MOD_def)

lemma append_x_root:
  "root R = Some n \<Longrightarrow>
   root (append_x R) = Some (Node (length_node n) (Some n) (Some (Node 1 None None ''x'')) [])"
  by (simp add: append_x_def append_str_def rope_of_def rope_node_leaf_def rope_node_concat_def)

lemma append_x_iter:
  "root R = Some n \<Longrightarrow>
   \<exists>n'. root ((append_x ^^ k) R) = Some n' \<and> depth n' = depth n + k
        \<and> length_node n' = length_node n + k"
proof (induction k)
  case 0
  then show ?case by simp
next
  case (Suc k)
  then obtain n' where n': "root ((append_x ^^ k) R) = Some n'" "depth n' = depth n + k"
    "length_node n' = length_node n + k" by blast
  from append_x_root[OF n'(1)] n'(2,3) show ?case
    by simp
qed

text \<open>
  C8, as amended. \<open>is_balanced\<close> is true when the root is absent, and otherwise exactly
  when the length is at least \<open>fib (depth + 2)\<close>, where \<open>fib k\<close> is the Fibonacci number
  \<open>Fib k\<close> modulo \<open>2 ^ 64\<close>: the standard one for \<open>k \<le> 93\<close>, so that for a depth up to
  91 the test is \<open>length \<ge> Fib (depth + 2)\<close>. The depth of a leaf is 0 and the depth of a node
  with two children is one more than the larger depth of the two.
\<close>

theorem is_balanced_fib:
  "(root R = None \<longrightarrow> is_balanced R)
   \<and> (root R = Some n \<longrightarrow> (is_balanced R \<longleftrightarrow> length_rope R \<ge> fib (size_add (depth n) 2)))
   \<and> fib k = Fib k mod 2 ^ 64
   \<and> (k \<le> 93 \<longrightarrow> fib k = Fib k)
   \<and> (root R = Some n \<and> depth n \<le> 91 \<longrightarrow>
        (is_balanced R \<longleftrightarrow> length_rope R \<ge> Fib (depth n + 2)))
   \<and> depth (Node w None None f) = 0
   \<and> depth (Node w (Some l) (Some r) f) = 1 + max (depth l) (depth r)"
proof -
  have "size_add (depth n) 2 = depth n + 2" if "depth n \<le> 91"
    using that by (simp add: size_add_def SIZE_MOD_def)
  moreover have "fib (depth n + 2) = Fib (depth n + 2)" if "depth n \<le> 91"
    using that by (simp add: fib_small)
  ultimately show ?thesis
    using fib_Fib[of k] fib_small[of k]
    by (auto simp: is_balanced_def SIZE_MOD_def)
qed

theorem is_balanced_fib_witness:
  "root (snd (append_str (rope_of ''some'') ''text''))
     = Some (Node 4 (Some (rope_node_leaf ''some'')) (Some (rope_node_leaf ''text'')) [])
   \<and> depth (Node 4 (Some (rope_node_leaf ''some'')) (Some (rope_node_leaf ''text'')) []) \<le> 91
   \<and> (3::nat) \<le> 93
   \<and> (is_balanced (snd (append_str (rope_of ''some'') ''text'')) \<longleftrightarrow>
        Fib (depth (Node 4 (Some (rope_node_leaf ''some'')) (Some (rope_node_leaf ''text'')) []) + 2)
          \<le> length_rope (snd (append_str (rope_of ''some'') ''text'')))
   \<and> fib 3 = Fib 3
   \<and> root \<lparr>root = (None :: char handle)\<rparr> = None
   \<and> is_balanced \<lparr>root = (None :: char handle)\<rparr>"
proof -
  let ?R = "snd (append_str (rope_of ''some'') ''text'')"
  let ?N = "Node 4 (Some (rope_node_leaf ''some'')) (Some (rope_node_leaf ''text'')) []"
  let ?E = "\<lparr>root = (None :: char handle)\<rparr>"
  have r: "root ?R = Some ?N"
    by (simp add: append_str_def rope_of_def rope_node_leaf_def rope_node_concat_def)
  have d: "depth ?N \<le> 91"
    by (simp add: rope_node_leaf_def)
  have k: "(3::nat) \<le> 93"
    by simp
  have n: "root ?E = None"
    by simp
  from is_balanced_fib [of ?R ?N 3] r d k
  have 1: "(is_balanced ?R \<longleftrightarrow> Fib (depth ?N + 2) \<le> length_rope ?R) \<and> fib 3 = Fib 3"
    by blast
  from is_balanced_fib [of ?E] n
  have 2: "is_balanced ?E"
    by blast
  from 1 2 r d k n show ?thesis
    by blast
qed

text \<open>
  The claim as stated fails from depth 92 on, where \<open>fib 94\<close> is
  \<open>Fib 94 - 2 ^ 64 = 1293530146158671551\<close>: a rope of that many elements with 92 appends
  of one element has depth 92 and counts as balanced, though it is shorter than \<open>Fib 94\<close>.
\<close>

theorem is_balanced_fib_counterexample:
  "is_balanced ((append_x ^^ 92) (rope_of (replicate 1293530146158671551 CHR ''x'')))
   \<and> map_option depth (root ((append_x ^^ 92) (rope_of (replicate 1293530146158671551 CHR ''x''))))
       = Some 92
   \<and> length_rope ((append_x ^^ 92) (rope_of (replicate 1293530146158671551 CHR ''x'')))
       < Fib (92 + 2)
   \<and> fib (92 + 2) \<noteq> Fib (92 + 2)"
proof -
  let ?R = "rope_of (replicate 1293530146158671551 CHR ''x'')"
  have "root ?R = Some (rope_node_leaf (replicate 1293530146158671551 CHR ''x''))"
    by (simp add: rope_of_def)
  from append_x_iter[OF this, of 92] obtain n' where
    n': "root ((append_x ^^ 92) ?R) = Some n'" "depth n' = 92"
     "length_node n' = 1293530146158671551 + 92"
    by (auto simp: rope_node_leaf_def)
  show ?thesis using n'
    by (simp add: is_balanced_def length_rope_def size_add_def SIZE_MOD_def fib_94 Fib_values)
qed

lemma slots_string_append:
  "slots_string (xs @ ys) = slots_string ys @ slots_string xs"
  by (simp add: slots_string_def)

lemma slots_string_Cons: "slots_string (x # xs) = slots_string xs @ handle_string x"
  by (simp add: slots_string_def)

lemma slots_string_all_None: "\<forall>x \<in> set xs. x = None \<Longrightarrow> slots_string xs = []"
  by (induction xs) (auto simp: slots_string_Cons handle_string_def, simp add: slots_string_def)

lemma slots_string_split:
  assumes "i < length nodes" and "\<forall>j < i. nodes ! j = None"
  shows "slots_string nodes = slots_string (drop (Suc i) nodes) @ handle_string (nodes ! i)"
proof -
  have "\<forall>x \<in> set (take i nodes). x = None"
    using assms by (auto simp: in_set_conv_nth)
  then have e: "slots_string (take i nodes) = []" by (rule slots_string_all_None)
  have "nodes = take i nodes @ nodes ! i # drop (Suc i) nodes"
    using assms(1) by (rule id_take_nth_drop)
  then have "slots_string nodes = slots_string (take i nodes @ nodes ! i # drop (Suc i) nodes)"
    by simp
  then show ?thesis by (simp add: slots_string_append slots_string_Cons e)
qed

lemma slots_string_update:
  assumes "i < length nodes" and "\<forall>j < i. nodes ! j = None"
  shows "slots_string (nodes[i := h]) = slots_string (drop (Suc i) nodes) @ handle_string h"
proof -
  have "slots_string (nodes[i := h])
        = slots_string (drop (Suc i) (nodes[i := h])) @ handle_string (nodes[i := h] ! i)"
    by (rule slots_string_split) (use assms in auto)
  then show ?thesis using assms(1) by simp
qed

lemma slot_ok_update:
  assumes a: "slot_ok ivs nodes"
    and h: "\<And>x. h = Some x \<Longrightarrow> weights_ok x \<and> closed x \<and> ivs ! i \<le> length_node x"
  shows "slot_ok ivs (nodes[i := h])"
proof -
  have "weights_ok x \<and> closed x \<and> ivs ! j \<le> length_node x"
    if j: "j < length (nodes[i := h])" "nodes[i := h] ! j = Some x" for j x
  proof (cases "j = i")
    case True
    with j have "h = Some x" by simp
    with h True show ?thesis by simp
  next
    case False
    with j have "nodes ! j = Some x" by simp
    with a j(1) show ?thesis by (simp add: slot_ok_def)
  qed
  with a show ?thesis by (simp add: slot_ok_def)
qed

lemma merge_slot_ok:
  "merge_slot x (Some a) = Inr (Node (length_node x) (Some x) (Some a) [])"
  by (simp add: merge_slot_def rope_node_concat_def rope_node_copy_id)

lemma intervals_last:
  assumes "intervals_ok ivs limit" and "i < length ivs" and "ivs ! i \<le> limit"
  shows "i + 1 < length ivs"
proof (rule ccontr)
  assume "\<not> i + 1 < length ivs"
  with assms(2) have "i = length ivs - 1" by simp
  moreover have "ivs \<noteq> []" using assms(1) by (auto simp: intervals_ok_def)
  ultimately have "ivs ! i = last ivs" by (simp add: last_conv_nth)
  with assms(1,3) show False by (simp add: intervals_ok_def)
qed

lemma find_slot_spec:
  assumes iv: "intervals_ok ivs limit" and mi: "max_i = length ivs - 1"
  shows "acc_inv ivs limit cm s i a nodes \<Longrightarrow>
    \<exists>i1 a1 nodes1.
      find_slot ivs max_i i (Some a) (length_node a) nodes
        = Inr (i1, Some a1, length_node a1, nodes1)
      \<and> acc_inv ivs limit cm s i1 a1 nodes1 \<and> i \<le> i1 \<and> (i1 = i \<longrightarrow> nodes1 = nodes)
      \<and> i1 + 1 < length ivs \<and> length_node a1 < ivs ! (i1 + 1)"
proof (induction "max_i - i" arbitrary: i a nodes)
  case 0
  then have inv: "acc_inv ivs limit cm s i a nodes" by simp
  then have len: "length nodes = length ivs" and i: "i < length ivs"
    and low: "ivs ! i \<le> length_node a" and tot: "length s \<le> limit"
    and str: "slots_string nodes @ tree_to_string a = s" and w: "weights_ok a"
    by (auto simp: acc_inv_def slot_ok_def)
  have "length_node a \<le> limit" using str tot w by (auto simp: length_node_string)
  with low have "ivs ! i \<le> limit" by simp
  from intervals_last[OF iv i this] 0(1) mi show ?case by simp
next
  case (Suc d)
  then have inv: "acc_inv ivs limit cm s i a nodes" by simp
  then have so: "slot_ok ivs nodes" and len: "length nodes = length ivs" and i: "i < length ivs"
    and low: "ivs ! i \<le> length_node a" and tot: "length s \<le> limit"
    and str: "slots_string nodes @ tree_to_string a = s" and w: "weights_ok a" and c: "closed a"
    and below: "\<forall>j < i. nodes ! j = None"
    and above: "\<forall>j. cm < j \<longrightarrow> j < length nodes \<longrightarrow> nodes ! j = None"
    and cm: "cm < length nodes" "nodes ! cm \<noteq> None \<or> cm \<le> i"
    by (auto simp: acc_inv_def slot_ok_def)
  have "length_node a \<le> limit" using str tot w by (auto simp: length_node_string)
  with low have "ivs ! i \<le> limit" by simp
  from intervals_last[OF iv i this] have i1: "i + 1 < length ivs" .
  with mi have lt: "i < max_i" by simp
  show ?case
  proof (cases "ivs ! (i + 1) \<le> length_node a")
    case False
    then have "find_slot ivs max_i i (Some a) (length_node a) nodes
               = Inr (i, Some a, length_node a, nodes)"
      using lt i1 by (subst find_slot.simps) simp
    with inv i1 False show ?thesis by simp
  next
    case True
    have d: "d = max_i - (i + 1)" using Suc(2) by simp
    show ?thesis
    proof (cases "nodes ! i")
      case None
      have inv': "acc_inv ivs limit cm s (i + 1) a nodes"
        using inv None True i1 len cm(2)
        by (auto simp: acc_inv_def less_Suc_eq)
      have "find_slot ivs max_i i (Some a) (length_node a) nodes
            = find_slot ivs max_i (i + 1) (Some a) (length_node a) nodes"
        using lt i1 True None i len by (subst find_slot.simps) simp
      with Suc(1)[OF d inv'] show ?thesis by fastforce
    next
      case (Some x)
      with so i len have x: "weights_ok x" "closed x" "ivs ! i \<le> length_node x"
        by (auto simp: slot_ok_def)
      let ?n = "Node (length_node x) (Some x) (Some a) []"
      let ?nodes = "nodes[i := None]"
      have ln: "length_node ?n = length_node x + length_node a" by simp
      have big: "ivs ! (i + 1) \<le> length_node ?n" using True by simp
      have s1: "slots_string nodes = slots_string (drop (Suc i) nodes) @ tree_to_string x"
        using slots_string_split[of i nodes] i len below Some by (simp add: handle_string_def)
      have s2: "slots_string ?nodes = slots_string (drop (Suc i) nodes)"
        using slots_string_update[of i nodes None] i len below by (simp add: handle_string_def)
      have inv': "acc_inv ivs limit cm s (i + 1) ?n ?nodes"
        unfolding acc_inv_def
      proof (intro conjI)
        show "slot_ok ivs ?nodes" using so by (rule slot_ok_update) simp
        show "i + 1 < length ?nodes" using i1 len by simp
        show "\<forall>j < i + 1. ?nodes ! j = None"
        proof (intro allI impI)
          fix j assume "j < i + 1"
          with below i len show "?nodes ! j = None" by (cases "j = i") simp_all
        qed
        show "weights_ok ?n" using x w by simp
        show "closed ?n" using c by simp
        show "ivs ! (i + 1) \<le> length_node ?n" by (rule big)
        show "slots_string ?nodes @ tree_to_string ?n = s" using s1 s2 str by simp
        show "length s \<le> limit" by (rule tot)
        show "\<forall>j. cm < j \<longrightarrow> j < length ?nodes \<longrightarrow> ?nodes ! j = None"
        proof (intro allI impI)
          fix j assume "cm < j" "j < length ?nodes"
          with above show "?nodes ! j = None" by (cases "j = i") simp_all
        qed
        show "cm < length ?nodes" using cm(1) by simp
        show "?nodes ! cm \<noteq> None \<or> cm \<le> i + 1"
          using cm(2) by (cases "cm = i") auto
      qed
      have "find_slot ivs max_i i (Some a) (length_node a) nodes
            = find_slot ivs max_i (i + 1) (Some ?n) (length_node ?n) ?nodes"
        using lt i1 True Some i len big
        by (subst find_slot.simps) (simp add: merge_slot_ok Let_def)
      with Suc(1)[OF d inv'] show ?thesis by fastforce
    qed
  qed
qed

lemma insert_acc_spec:
  assumes iv: "intervals_ok ivs limit" and mi: "max_i = length ivs - 1"
  shows "acc_inv ivs limit cm s i a nodes \<Longrightarrow>
    \<exists>nodes' cm'. insert_acc ivs max_i cm i (Some a) (length_node a) nodes
                   = Some (Inr (nodes', cm'))
                 \<and> slots_inv ivs cm' s nodes'"
proof (induction "2 * (length ivs - i) + (if nodes ! i = None then 0 else 1)"
    arbitrary: i a nodes rule: less_induct)
  case less
  note inv = less.prems
  from find_slot_spec[OF iv mi inv] obtain i1 a1 nodes1 where
    fs: "find_slot ivs max_i i (Some a) (length_node a) nodes
          = Inr (i1, Some a1, length_node a1, nodes1)"
    and inv1: "acc_inv ivs limit cm s i1 a1 nodes1" and ii: "i \<le> i1"
    and same: "i1 = i \<longrightarrow> nodes1 = nodes"
    and i1: "i1 + 1 < length ivs" and small: "length_node a1 < ivs ! (i1 + 1)"
    by blast
  from inv1 have so: "slot_ok ivs nodes1" and len: "length nodes1 = length ivs"
    and low: "ivs ! i1 \<le> length_node a1"
    and str: "slots_string nodes1 @ tree_to_string a1 = s" and w: "weights_ok a1"
    and c: "closed a1" and below: "\<forall>j < i1. nodes1 ! j = None"
    and above: "\<forall>j. cm < j \<longrightarrow> j < length nodes1 \<longrightarrow> nodes1 ! j = None"
    and cm: "cm < length nodes1" "nodes1 ! cm \<noteq> None \<or> cm \<le> i1"
    by (auto simp: acc_inv_def slot_ok_def)
  have il: "i1 < length nodes1" using i1 len by simp
  show ?case
  proof (cases "nodes1 ! i1")
    case None
    let ?nodes = "nodes1[i1 := Some a1]"
    let ?cm = "if i1 > cm then i1 else cm"
    have res: "insert_acc ivs max_i cm i (Some a) (length_node a) nodes
               = Some (Inr (?nodes, ?cm))"
      using fs il None by (subst insert_acc.simps) simp
    have s1: "slots_string nodes1 = slots_string (drop (Suc i1) nodes1)"
      using slots_string_split[OF il below] None by (simp add: handle_string_def)
    have s2: "slots_string ?nodes = slots_string (drop (Suc i1) nodes1) @ tree_to_string a1"
      using slots_string_update[OF il below, of "Some a1"] by (simp add: handle_string_def)
    have "slots_inv ivs ?cm s ?nodes"
      unfolding slots_inv_def
    proof (intro conjI)
      show "slot_ok ivs ?nodes" using so by (rule slot_ok_update) (use w c low in simp)
      show "slots_string ?nodes = s" using s1 s2 str by simp
      show "\<forall>j. ?cm < j \<longrightarrow> j < length ?nodes \<longrightarrow> ?nodes ! j = None"
      proof (intro allI impI)
        fix j assume "?cm < j" "j < length ?nodes"
        then have "cm < j" "j \<noteq> i1" "j < length nodes1" by (auto split: if_splits)
        with above show "?nodes ! j = None" by simp
      qed
      show "?cm < length ?nodes" using cm(1) il by simp
      show "?nodes ! ?cm \<noteq> None \<or> ?cm = 0"
        using cm(2) il by (cases "cm = i1") auto
    qed
    with res show ?thesis by blast
  next
    case (Some x)
    with so il have x: "weights_ok x" "closed x" "ivs ! i1 \<le> length_node x"
      by (auto simp: slot_ok_def)
    let ?n = "Node (length_node x) (Some x) (Some a1) []"
    let ?nodes = "nodes1[i1 := None]"
    have dbl: "ivs ! (i1 + 1) \<le> 2 * ivs ! i1"
      using iv i1 by (simp add: intervals_ok_def)
    have big: "ivs ! (i1 + 1) \<le> length_node ?n" using dbl x(3) low by simp
    have res: "insert_acc ivs max_i cm i (Some a) (length_node a) nodes
               = insert_acc ivs max_i cm i1 (Some ?n) (length_node ?n) ?nodes"
      using fs il Some i1 big
      by (subst insert_acc.simps) (simp add: merge_slot_ok Let_def)
    have s1: "slots_string nodes1 = slots_string (drop (Suc i1) nodes1) @ tree_to_string x"
      using slots_string_split[OF il below] Some by (simp add: handle_string_def)
    have s2: "slots_string ?nodes = slots_string (drop (Suc i1) nodes1)"
      using slots_string_update[OF il below, of None] by (simp add: handle_string_def)
    have inv': "acc_inv ivs limit cm s i1 ?n ?nodes"
      unfolding acc_inv_def
    proof (intro conjI)
      show "slot_ok ivs ?nodes" using so by (rule slot_ok_update) simp
      show "i1 < length ?nodes" using il by simp
      show "\<forall>j < i1. ?nodes ! j = None" using below by simp
      show "weights_ok ?n" using x w by simp
      show "closed ?n" using c by simp
      show "ivs ! i1 \<le> length_node ?n" using low by simp
      show "slots_string ?nodes @ tree_to_string ?n = s" using s1 s2 str by simp
      show "length s \<le> limit" using inv1 by (simp add: acc_inv_def)
      show "\<forall>j. cm < j \<longrightarrow> j < length ?nodes \<longrightarrow> ?nodes ! j = None"
      proof (intro allI impI)
        fix j assume "cm < j" "j < length ?nodes"
        with above show "?nodes ! j = None" by (cases "j = i1") simp_all
      qed
      show "cm < length ?nodes" using cm(1) by simp
      show "?nodes ! cm \<noteq> None \<or> cm \<le> i1"
        using cm(2) by (cases "cm = i1") auto
    qed
    have "nodes ! i \<noteq> None" if "i1 = i"
      using that same Some by auto
    then have "2 * (length ivs - i1) + (if ?nodes ! i1 = None then 0 else 1)
          < 2 * (length ivs - i) + (if nodes ! i = None then 0 else 1)"
      using ii i1 il by (cases "i1 = i") auto
    from less.hyps[OF this inv'] res show ?thesis by simp
  qed
qed

lemma insert_leaves_spec:
  assumes iv: "intervals_ok ivs limit" and mi: "max_i = length ivs - 1"
  shows "slots_inv ivs cm s nodes \<Longrightarrow> \<forall>x \<in> set leaves. weights_ok x \<and> closed x \<Longrightarrow>
    length s + length (concat (map tree_to_string leaves)) \<le> limit \<Longrightarrow>
    \<exists>nodes' cm'. insert_leaves ivs max_i leaves nodes cm = Some (Inr (nodes', cm'))
                 \<and> slots_inv ivs cm' (s @ concat (map tree_to_string leaves)) nodes'"
proof (induction leaves arbitrary: s nodes cm)
  case Nil
  then show ?case by simp
next
  case (Cons leaf leaves)
  then have w: "weights_ok leaf" and c: "closed leaf" by simp_all
  have ls: "length_node leaf = length (tree_to_string leaf)"
    using w by (rule length_node_string)
  show ?case
  proof (cases "length_node leaf > 0")
    case False
    with ls have e: "tree_to_string leaf = []" by simp
    from Cons.IH[of cm s nodes] Cons.prems e False show ?thesis by simp
  next
    case True
    from Cons.prems(1) have so: "slot_ok ivs nodes" and str: "slots_string nodes = s"
      and above: "\<forall>j. cm < j \<longrightarrow> j < length nodes \<longrightarrow> nodes ! j = None"
      and cm: "cm < length nodes" "nodes ! cm \<noteq> None \<or> cm = 0"
      by (auto simp: slots_inv_def)
    have inv: "acc_inv ivs limit cm (s @ tree_to_string leaf) 0 leaf nodes"
      unfolding acc_inv_def
      using so str above cm w c True iv Cons.prems(3)
      by (auto simp: intervals_ok_def)
    from insert_acc_spec[OF iv mi inv] obtain nodes1 cm1 where
      ia: "insert_acc ivs max_i cm 0 (Some leaf) (length_node leaf) nodes
            = Some (Inr (nodes1, cm1))"
      and si: "slots_inv ivs cm1 (s @ tree_to_string leaf) nodes1" by blast
    have "length (s @ tree_to_string leaf) + length (concat (map tree_to_string leaves)) \<le> limit"
      using Cons.prems(3) by simp
    from Cons.IH[OF si _ this] Cons.prems(2) obtain nodes' cm' where
      "insert_leaves ivs max_i leaves nodes1 cm1 = Some (Inr (nodes', cm'))"
      "slots_inv ivs cm' ((s @ tree_to_string leaf) @ concat (map tree_to_string leaves)) nodes'"
      by auto
    with ia True show ?thesis by (simp add: rope_node_copy_id)
  qed
qed

lemma getLeaves_spec:
  "weights_ok n \<Longrightarrow>
   concat (map tree_to_string (getLeaves n)) = tree_to_string n
   \<and> (\<forall>x \<in> set (getLeaves n). weights_ok x \<and> closed x)"
proof (induction n)
  case (Node w l r f)
  show ?case
  proof (cases "l = None \<and> r = None")
    case True
    with Node.prems show ?thesis by simp
  next
    case False
    with Node.prems obtain ln where l: "l = Some ln" and wl: "weights_ok ln"
      by (auto split: option.splits)
    have "ln \<in> set_option l" using l by simp
    note il = Node.IH(1)[OF this wl]
    show ?thesis
    proof (cases r)
      case None
      with False l il show ?thesis by simp
    next
      case (Some rn)
      with Node.prems False l have wr: "weights_ok rn" by simp
      have "rn \<in> set_option r" using Some by simp
      note ir = Node.IH(2)[OF this wr]
      from False l Some il ir show ?thesis by auto
    qed
  qed
qed

lemma fold_loop_spec:
  "idx < length nodes \<Longrightarrow> weights_ok a \<Longrightarrow> closed a \<Longrightarrow>
   \<forall>j < length nodes. \<forall>x. nodes ! j = Some x \<longrightarrow> weights_ok x \<and> closed x \<Longrightarrow>
   \<exists>r. fold_loop nodes (Some a) idx = Inr (Some r) \<and> weights_ok r \<and> closed r
      \<and> tree_to_string r = tree_to_string a @ slots_string (take (Suc idx) nodes)"
proof (induction idx arbitrary: a)
  case 0
  then show ?case
    by (cases "nodes ! 0")
      (auto simp: fold_step_def rope_node_concat_def rope_node_copy_id take_Suc_conv_app_nth
        slots_string_def handle_string_def)
next
  case (Suc idx)
  have t: "slots_string (take (Suc (Suc idx)) nodes)
           = handle_string (nodes ! Suc idx) @ slots_string (take (Suc idx) nodes)"
    using Suc.prems(1) by (simp add: take_Suc_conv_app_nth[of "Suc idx"] slots_string_def)
  show ?case
  proof (cases "nodes ! Suc idx")
    case None
    from Suc.IH[of a] Suc.prems None t show ?thesis
      by (auto simp: fold_step_def handle_string_def)
  next
    case (Some x)
    with Suc.prems have x: "weights_ok x" "closed x" by auto
    let ?n = "Node (length_node a) (Some a) (Some x) []"
    have "weights_ok ?n" "closed ?n" using x Suc.prems by simp_all
    from Suc.IH[OF _ this] Suc.prems obtain r where
      "fold_loop nodes (Some ?n) idx = Inr (Some r)" "weights_ok r" "closed r"
      "tree_to_string r = tree_to_string ?n @ slots_string (take (Suc idx) nodes)"
      by auto
    with Some t Suc.prems(1) show ?thesis
      by (auto simp: fold_step_def rope_node_concat_def rope_node_copy_id handle_string_def)
  qed
qed

lemma fold_slots_spec:
  assumes si: "slots_inv ivs cm s nodes" and ne: "s \<noteq> []"
  shows "\<exists>r. fold_slots nodes cm = Inr (Some r) \<and> weights_ok r \<and> closed r
           \<and> tree_to_string r = s"
proof -
  from si have so: "slot_ok ivs nodes" and str: "slots_string nodes = s"
    and above: "\<forall>j. cm < j \<longrightarrow> j < length nodes \<longrightarrow> nodes ! j = None"
    and cm: "cm < length nodes" "nodes ! cm \<noteq> None \<or> cm = 0"
    by (auto simp: slots_inv_def)
  have "nodes ! cm \<noteq> None"
  proof (rule ccontr)
    assume "\<not> nodes ! cm \<noteq> None"
    with cm have "cm = 0" "nodes ! 0 = None" by auto
    with above have "\<forall>x \<in> set nodes. x = None"
      by (auto simp: in_set_conv_nth) (metis gr0I)
    then have "slots_string nodes = []" by (rule slots_string_all_None)
    with str ne show False by simp
  qed
  then obtain a where a: "nodes ! cm = Some a" by auto
  with so cm(1) have wa: "weights_ok a" "closed a" by (auto simp: slot_ok_def)
  let ?nodes = "nodes[cm := None]"
  have ok: "\<forall>j < length ?nodes. \<forall>x. ?nodes ! j = Some x \<longrightarrow> weights_ok x \<and> closed x"
    using slot_ok_update[OF so, of None cm] by (simp add: slot_ok_def)
  from fold_loop_spec[of cm ?nodes a, OF _ wa ok] cm(1) obtain r where
    r: "fold_loop ?nodes (Some a) cm = Inr (Some r)" "weights_ok r" "closed r"
    "tree_to_string r = tree_to_string a @ slots_string (take (Suc cm) ?nodes)"
    by auto
  have n1: "nodes = take cm nodes @ nodes ! cm # drop (Suc cm) nodes"
    using cm(1) by (rule id_take_nth_drop)
  have "\<forall>x \<in> set (drop (Suc cm) nodes). x = None"
    using above by (auto simp: in_set_conv_nth)
  then have d: "slots_string (drop (Suc cm) nodes) = []" by (rule slots_string_all_None)
  have "slots_string nodes
        = slots_string (drop (Suc cm) nodes) @ handle_string (nodes ! cm)
          @ slots_string (take cm nodes)"
    by (subst n1) (simp add: slots_string_append slots_string_Cons)
  with d a have s1: "slots_string nodes = tree_to_string a @ slots_string (take cm nodes)"
    by (simp add: handle_string_def)
  have "take (Suc cm) ?nodes = take cm nodes @ [None]"
    using cm(1) by (simp add: take_Suc_conv_app_nth)
  then have s2: "slots_string (take (Suc cm) ?nodes) = slots_string (take cm nodes)"
    by (simp add: slots_string_append slots_string_def handle_string_def)
  show ?thesis using r a cm(1) s1 s2 str by (simp add: fold_slots_def)
qed

lemma Fib_pos: "1 \<le> k \<Longrightarrow> 1 \<le> Fib k"
  using Fib_mono[of 1 k] by simp

lemma build_fib_loop_spec:
  "a = Fib k \<Longrightarrow> b = Fib (k + 1) \<Longrightarrow> 1 \<le> k \<Longrightarrow> len < Fib 45 \<Longrightarrow> a \<le> len \<Longrightarrow>
   \<exists>ys. build_fib_loop a b len acc = Some (Inr (acc @ ys)) \<and> ys \<noteq> [] \<and> hd ys = b
        \<and> len < last ys \<and> (\<forall>j. j + 1 < length ys \<longrightarrow> ys ! (j + 1) \<le> 2 * ys ! j)"
proof (induction "45 - k" arbitrary: k a b acc)
  case 0
  then have "Fib 45 \<le> Fib k" by (intro Fib_mono) simp
  with 0 show ?case by simp
next
  case (Suc d)
  have k: "k < 45"
  proof (rule ccontr)
    assume "\<not> k < 45"
    then have "Fib 45 \<le> Fib k" by (intro Fib_mono) simp
    with Suc.prems show False by simp
  qed
  have pos: "0 < a" using Fib_pos[OF Suc.prems(3)] Suc.prems(1) by simp
  have ab: "a \<le> b" using Suc.prems(1,2) Fib_mono_Suc[of k] by simp
  have s: "a + b = Fib (k + 2)" using Suc.prems(1,2) by simp
  have "Fib (k + 2) \<le> Fib 46" using k by (intro Fib_mono) simp
  then have ov: "\<not> a + b > INT_MAX" using s by (simp add: Fib_values INT_MAX_def)
  have step: "build_fib_loop a b len acc = build_fib_loop b (a + b) len (acc @ [b])"
    using Suc.prems(5) pos ov by (subst build_fib_loop.simps) simp
  show ?case
  proof (cases "b \<le> len")
    case False
    then have "build_fib_loop b (a + b) len (acc @ [b]) = Some (Inr (acc @ [b]))"
      by (subst build_fib_loop.simps) simp
    with step False show ?thesis by (intro exI[of _ "[b]"]) simp
  next
    case True
    have d: "d = 45 - (k + 1)" using Suc(2) by simp
    from Suc(1)[OF d Suc.prems(2) _ _ Suc.prems(4) True, of "a + b" "acc @ [b]"] s
    obtain ys where ys: "build_fib_loop b (a + b) len (acc @ [b]) = Some (Inr ((acc @ [b]) @ ys))"
      "ys \<noteq> []" "hd ys = a + b" "len < last ys"
      "\<forall>j. j + 1 < length ys \<longrightarrow> ys ! (j + 1) \<le> 2 * ys ! j"
      by auto
    have dbl: "\<forall>j. j + 1 < length (b # ys) \<longrightarrow> (b # ys) ! (j + 1) \<le> 2 * (b # ys) ! j"
    proof (intro allI impI)
      fix j assume j: "j + 1 < length (b # ys)"
      show "(b # ys) ! (j + 1) \<le> 2 * (b # ys) ! j"
      proof (cases j)
        case 0
        with ys(2,3) ab show ?thesis by (simp add: hd_conv_nth)
      next
        case (Suc j')
        with ys(5) j show ?thesis by simp
      qed
    qed
    show ?thesis
      using step ys(1,2,4) dbl by (intro exI[of _ "b # ys"]) simp
  qed
qed

lemma build_fib_list_spec:
  assumes "1 \<le> len" and "len < 1134903170"
  shows "\<exists>ivs. build_fib_list len = Some (Inr ivs) \<and> intervals_ok ivs len"
proof -
  have first: "build_fib_list len = build_fib_loop 1 1 len []"
    unfolding build_fib_list_def by (subst build_fib_loop.simps) (simp add: INT_MAX_def)
  have "len < Fib 45" using assms(2) by (simp add: Fib_values)
  from build_fib_loop_spec[where a=1 and k=1 and b=1 and len=len and acc="[]", OF _ _ _ this] assms(1)
  obtain ys where ys: "build_fib_loop 1 1 len [] = Some (Inr ys)" "ys \<noteq> []" "hd ys = 1"
    "len < last ys" "\<forall>j. j + 1 < length ys \<longrightarrow> ys ! (j + 1) \<le> 2 * ys ! j"
    by (auto simp: numeral_2_eq_2)
  have "hd ys \<noteq> last ys" using ys(3,4) assms(1) by simp
  then have "2 \<le> length ys"
    using ys(2) by (cases ys) (auto simp: Suc_le_eq)
  with ys first show ?thesis by (auto simp: intervals_ok_def hd_conv_nth)
qed

lemma build_fib_loop_overflow:
  "a = Fib k \<Longrightarrow> b = Fib (k + 1) \<Longrightarrow> 1 \<le> k \<Longrightarrow> k \<le> 45 \<Longrightarrow> Fib 45 \<le> len \<Longrightarrow>
   build_fib_loop a b len acc = Some (Inl IntOverflow)"
proof (induction "45 - k" arbitrary: k a b acc)
  case 0
  then have k: "k = 45" by simp
  have "a + b = Fib 47" using 0(2,3) k Fib_rec[of 45] by simp
  then have ov: "a + b > INT_MAX" by (simp add: Fib_values INT_MAX_def)
  have "a \<le> len" using 0(2,6) k by simp
  with ov show ?case by (subst build_fib_loop.simps) (simp add: Let_def)
next
  case (Suc d)
  then have k: "k < 45" by simp
  have "Fib k \<le> Fib 45" using k by (intro Fib_mono) simp
  then have le: "a \<le> len" using Suc.prems(1,5) by simp
  have pos: "0 < a" using Fib_pos[OF Suc.prems(3)] Suc.prems(1) by simp
  have s: "a + b = Fib (k + 2)" using Suc.prems(1,2) by simp
  have "Fib (k + 2) \<le> Fib 46" using k by (intro Fib_mono) simp
  then have ov: "\<not> a + b > INT_MAX" using s by (simp add: Fib_values INT_MAX_def)
  have step: "build_fib_loop a b len acc = build_fib_loop b (a + b) len (acc @ [b])"
    using le pos ov by (subst build_fib_loop.simps) simp
  have d: "d = 45 - (k + 1)" using Suc(2) by simp
  have "build_fib_loop b (a + b) len (acc @ [b]) = Some (Inl IntOverflow)"
    by (rule Suc(1)[OF d Suc.prems(2)]) (use s k Suc.prems(5) in simp_all)
  with step show ?case by simp
qed

lemma build_fib_list_overflow:
  assumes "1134903170 \<le> len"
  shows "build_fib_list len = Some (Inl IntOverflow)"
proof -
  have first: "build_fib_list len = build_fib_loop 1 1 len []"
    unfolding build_fib_list_def by (subst build_fib_loop.simps) (simp add: INT_MAX_def)
  have "Fib 45 \<le> len" using assms by (simp add: Fib_values)
  from build_fib_loop_overflow[where a=1 and k=1 and b=1 and len=len and acc="[]", OF _ _ _ _ this]
  have "build_fib_loop 1 1 len [] = Some (Inl IntOverflow)"
    by (simp add: numeral_2_eq_2)
  with first show ?thesis by simp
qed

lemma balance_overflow:
  "\<not> is_balanced R \<Longrightarrow> 1134903170 \<le> length_rope R \<Longrightarrow> balance R = Some (Some IntOverflow, R)"
  by (simp add: balance_def build_fib_list_overflow)

text \<open>
  What \<open>balance\<close> does keep. For a rope that satisfies the invariant of the operations and
  has a length from 1 up to 1134903169, \<open>balance\<close> returns normally, the content is
  unchanged, the invariant still holds, and the rope is unchanged if it was balanced. The two
  bounds are needed: at length 0 the call ends in an out-of-bounds read
  (\<open>balance_default_out_of_bounds\<close>), and from length 1134903170 on the \<^verbatim>\<open>int\<close>
  counters of \<^verbatim>\<open>build_fib_list\<close> overflow (\<open>balance_overflow\<close>).
\<close>

lemma balance_preserves_content:
  assumes "rope_inv R" and "0 < length_rope R" and "length_rope R < 1134903170"
  shows "\<exists>R'. balance R = Some (None, R') \<and> to_string R' = to_string R \<and> rope_inv R'
           \<and> (is_balanced R \<longrightarrow> R' = R)"
proof (cases "is_balanced R")
  case True
  with assms(1) show ?thesis by (simp add: balance_def)
next
  case False
  from assms(1) obtain n where n: "root R = Some n" "weights_ok n" "closed n"
    by (auto simp: rope_inv_def split: option.splits)
  have lr: "length_rope R = length (tree_to_string n)"
    using n by (simp add: length_rope_def length_node_string)
  from build_fib_list_spec[of "length_rope R"] assms(2,3) obtain ivs where
    ivs: "build_fib_list (length_rope R) = Some (Inr ivs)" "intervals_ok ivs (length_rope R)"
    by auto
  let ?max = "size_sub (length ivs) 1"
  have mi: "?max = length ivs - 1"
    using ivs(2) by (simp add: size_sub_def intervals_ok_def)
  have init: "slots_inv ivs 0 [] (replicate (length ivs) None)"
    using ivs(2)
    by (auto simp: slots_inv_def slot_ok_def intervals_ok_def slots_string_all_None)
  from getLeaves_spec[OF n(2)] have
    gl: "concat (map tree_to_string (getLeaves n)) = tree_to_string n"
      "\<forall>x \<in> set (getLeaves n). weights_ok x \<and> closed x"
    by simp_all
  have "length ([] :: 'a list) + length (concat (map tree_to_string (getLeaves n)))
        \<le> length_rope R"
    using gl(1) lr by simp
  from insert_leaves_spec[OF ivs(2) mi init gl(2) this] gl(1) obtain nodes1 cm1 where
    il: "insert_leaves ivs ?max (getLeaves n) (replicate (length ivs) None) 0
          = Some (Inr (nodes1, cm1))"
    and si: "slots_inv ivs cm1 (tree_to_string n) nodes1"
    by auto
  have "tree_to_string n \<noteq> []" using assms(2) lr by auto
  from fold_slots_spec[OF si this] obtain r where
    r: "fold_slots nodes1 cm1 = Inr (Some r)" "weights_ok r" "closed r"
    "tree_to_string r = tree_to_string n"
    by blast
  have "balance R = Some (None, R\<lparr>root := Some r\<rparr>)"
    using False ivs(1) n(1) il r(1) by (simp add: balance_def Let_def)
  with r n False show ?thesis by (simp add: to_string_def rope_inv_def)
qed

lemma append_x_simp:
  "append_x \<lparr>root = Some n\<rparr>
   = \<lparr>root = Some (Node (length_node n) (Some n) (Some (Node 1 None None ''x'')) [])\<rparr>"
  by (simp add: append_x_def append_str_def rope_of_def rope_node_leaf_def rope_node_concat_def)

lemma balance_preserves_content_example:
  "rope_inv (append_x (append_x (append_x (rope_of ''x''))))
   \<and> 0 < length_rope (append_x (append_x (append_x (rope_of ''x''))))
   \<and> length_rope (append_x (append_x (append_x (rope_of ''x'')))) < 1134903170
   \<and> \<not> is_balanced (append_x (append_x (append_x (rope_of ''x''))))
   \<and> (\<exists>R'. balance (append_x (append_x (append_x (rope_of ''x'')))) = Some (None, R')
          \<and> to_string R' = ''xxxx'' \<and> rope_inv R')
   \<and> rope_inv (append_x (rope_of ''x''))
   \<and> 0 < length_rope (append_x (rope_of ''x''))
   \<and> length_rope (append_x (rope_of ''x'')) < 1134903170
   \<and> is_balanced (append_x (rope_of ''x''))
   \<and> balance (append_x (rope_of ''x'')) = Some (None, append_x (rope_of ''x''))"
proof -
  let ?R = "append_x (append_x (append_x (rope_of ''x'')))"
  let ?S = "append_x (rope_of ''x'')"
  have e: "?R = \<lparr>root = Some (Node 3 (Some (Node 2 (Some (Node 1 (Some (Node 1 None None ''x''))
                (Some (Node 1 None None ''x'')) [])) (Some (Node 1 None None ''x'')) []))
                (Some (Node 1 None None ''x'')) [])\<rparr>"
    by (simp add: rope_of_def rope_node_leaf_def append_x_simp)
  have i: "rope_inv ?R" unfolding e by (simp add: rope_inv_def)
  have l: "length_rope ?R = 4" unfolding e by (simp add: length_rope_def)
  have s: "to_string ?R = ''xxxx''" unfolding e by (simp add: to_string_def)
  have f: "fib 5 = 5" by (simp add: fib_def SIZE_MOD_def)
  have d: "depth (Node 3 (Some (Node 2 (Some (Node 1 (Some (Node 1 None None ''x''))
                (Some (Node 1 None None ''x'')) [])) (Some (Node 1 None None ''x'')) []))
                (Some (Node 1 None None ''x'')) []) = 3"
    by simp
  have b: "\<not> is_balanced ?R"
    unfolding e by (simp only: is_balanced_def rope.simps option.case Let_def d)
      (simp add: size_add_def SIZE_MOD_def f length_rope_def)
  from balance_preserves_content [of ?R] i l s
  have 1: "\<exists>R'. balance ?R = Some (None, R') \<and> to_string R' = ''xxxx'' \<and> rope_inv R'"
    by auto
  have e': "?S = \<lparr>root = Some (Node 1 (Some (Node 1 None None ''x''))
                (Some (Node 1 None None ''x'')) [])\<rparr>"
    by (simp add: rope_of_def rope_node_leaf_def append_x_simp)
  have i': "rope_inv ?S" unfolding e' by (simp add: rope_inv_def)
  have l': "length_rope ?S = 2" unfolding e' by (simp add: length_rope_def)
  have f': "fib 3 = 2" by (simp add: fib_def SIZE_MOD_def)
  have d': "depth (Node 1 (Some (Node 1 None None ''x'')) (Some (Node 1 None None ''x'')) []) = 1"
    by simp
  have b': "is_balanced ?S"
    unfolding e' by (simp only: is_balanced_def rope.simps option.case Let_def d')
      (simp add: size_add_def SIZE_MOD_def f' length_rope_def)
  from balance_preserves_content [of ?S] i' l' b'
  have 2: "balance ?S = Some (None, ?S)"
    by auto
  from i l b 1 i' l' b' 2 show ?thesis by simp
qed

lemma build_fib_list_7: "build_fib_list 7 = Some (Inr [1, 2, 3, 5, 8])"
  by (simp add: build_fib_list_def build_fib_loop.simps INT_MAX_def)

lemma balance_seven_leaves:
  "root R = Some n \<Longrightarrow> \<not> is_balanced R \<Longrightarrow> length_rope R = 7 \<Longrightarrow>
   getLeaves n = [Node 1 None None ''x'', Node 1 None None ''x'', Node 1 None None ''x'',
     Node 1 None None ''x'', Node 1 None None ''x'', Node 1 None None ''x'',
     Node 1 None None ''x''] \<Longrightarrow>
   balance R = Some (None, R\<lparr>root := Some
     (Node 6
       (Some (Node 4
          (Some (Node 2
             (Some (Node 1 (Some (Node 1 None None ''x'')) (Some (Node 1 None None ''x'')) []))
             (Some (Node 1 (Some (Node 1 None None ''x'')) (Some (Node 1 None None ''x'')) []))
             []))
          (Some (Node 1 (Some (Node 1 None None ''x'')) (Some (Node 1 None None ''x'')) []))
          []))
       (Some (Node 1 None None ''x'')) [])\<rparr>)"
  by (simp add: balance_def build_fib_list_7 size_sub_def insert_acc.simps merge_slot_def
      rope_node_concat_def fold_slots_def fold_step_def)

text \<open>
  C5 (the code departs from the claim). The rope of seven one-element leaves (\<open>''x''\<close> with
  six appends of \<open>''x''\<close>) is not balanced, and \<open>balance\<close> rebuilds it with depth 4:
  \<open>fib 6 = 8\<close> is more than its length 7, so the result is not balanced either. A second
  \<open>balance\<close> runs again and rebuilds the same tree: the tree after
  \<open>balance(balance(R))\<close> does not satisfy \<open>is_balanced\<close>.
\<close>

theorem balance_twice_not_balanced:
  "balance (append_x (append_x (append_x (append_x (append_x (append_x (rope_of ''x''))))))) = Some (None, \<lparr>root = Some
     (Node 6
       (Some (Node 4
          (Some (Node 2
             (Some (Node 1 (Some (Node 1 None None ''x'')) (Some (Node 1 None None ''x'')) []))
             (Some (Node 1 (Some (Node 1 None None ''x'')) (Some (Node 1 None None ''x'')) []))
             []))
          (Some (Node 1 (Some (Node 1 None None ''x'')) (Some (Node 1 None None ''x'')) []))
          []))
       (Some (Node 1 None None ''x'')) [])\<rparr>)
   \<and> balance \<lparr>root = Some
     (Node 6
       (Some (Node 4
          (Some (Node 2
             (Some (Node 1 (Some (Node 1 None None ''x'')) (Some (Node 1 None None ''x'')) []))
             (Some (Node 1 (Some (Node 1 None None ''x'')) (Some (Node 1 None None ''x'')) []))
             []))
          (Some (Node 1 (Some (Node 1 None None ''x'')) (Some (Node 1 None None ''x'')) []))
          []))
       (Some (Node 1 None None ''x'')) [])\<rparr> = Some (None, \<lparr>root = Some
     (Node 6
       (Some (Node 4
          (Some (Node 2
             (Some (Node 1 (Some (Node 1 None None ''x'')) (Some (Node 1 None None ''x'')) []))
             (Some (Node 1 (Some (Node 1 None None ''x'')) (Some (Node 1 None None ''x'')) []))
             []))
          (Some (Node 1 (Some (Node 1 None None ''x'')) (Some (Node 1 None None ''x'')) []))
          []))
       (Some (Node 1 None None ''x'')) [])\<rparr>)
   \<and> \<not> is_balanced \<lparr>root = Some
     (Node 6
       (Some (Node 4
          (Some (Node 2
             (Some (Node 1 (Some (Node 1 None None ''x'')) (Some (Node 1 None None ''x'')) []))
             (Some (Node 1 (Some (Node 1 None None ''x'')) (Some (Node 1 None None ''x'')) []))
             []))
          (Some (Node 1 (Some (Node 1 None None ''x'')) (Some (Node 1 None None ''x'')) []))
          []))
       (Some (Node 1 None None ''x'')) [])\<rparr>"
proof -
  let ?R = "append_x (append_x (append_x (append_x (append_x (append_x (rope_of ''x''))))))"
  let ?B = "\<lparr>root = Some
     (Node 6
       (Some (Node 4
          (Some (Node 2
             (Some (Node 1 (Some (Node 1 None None ''x'')) (Some (Node 1 None None ''x'')) []))
             (Some (Node 1 (Some (Node 1 None None ''x'')) (Some (Node 1 None None ''x'')) []))
             []))
          (Some (Node 1 (Some (Node 1 None None ''x'')) (Some (Node 1 None None ''x'')) []))
          []))
       (Some (Node 1 None None ''x'')) [])\<rparr>"
  have e: "?R = \<lparr>root = Some (Node 6 (Some (Node 5 (Some (Node 4 (Some (Node 3 (Some (Node 2
      (Some (Node 1 (Some (Node 1 None None ''x'')) (Some (Node 1 None None ''x'')) []))
      (Some (Node 1 None None ''x'')) [])) (Some (Node 1 None None ''x'')) []))
      (Some (Node 1 None None ''x'')) [])) (Some (Node 1 None None ''x'')) []))
      (Some (Node 1 None None ''x'')) [])\<rparr>"
    by (simp add: rope_of_def rope_node_leaf_def append_x_simp)
  have f8: "fib 8 = 21" and f6: "fib 6 = 8"
    by (simp_all add: fib_def SIZE_MOD_def)
  have nR: "\<not> is_balanced ?R"
    unfolding e by (simp add: is_balanced_def size_add_def SIZE_MOD_def f8 length_rope_def)
  have nB: "\<not> is_balanced ?B"
    by (simp add: is_balanced_def size_add_def SIZE_MOD_def f6 length_rope_def)
  let ?L = "[Node 1 None None ''x'', Node 1 None None ''x'', Node 1 None None ''x'',
     Node 1 None None ''x'', Node 1 None None ''x'', Node 1 None None ''x'',
     Node 1 None None ''x'']"
  have gR: "getLeaves (Node 6 (Some (Node 5 (Some (Node 4 (Some (Node 3 (Some (Node 2
      (Some (Node 1 (Some (Node 1 None None ''x'')) (Some (Node 1 None None ''x'')) []))
      (Some (Node 1 None None ''x'')) [])) (Some (Node 1 None None ''x'')) []))
      (Some (Node 1 None None ''x'')) [])) (Some (Node 1 None None ''x'')) []))
      (Some (Node 1 None None ''x'')) []) = ?L"
    by simp
  have gB: "getLeaves (Node 6
       (Some (Node 4
          (Some (Node 2
             (Some (Node 1 (Some (Node 1 None None ''x'')) (Some (Node 1 None None ''x'')) []))
             (Some (Node 1 (Some (Node 1 None None ''x'')) (Some (Node 1 None None ''x'')) []))
             []))
          (Some (Node 1 (Some (Node 1 None None ''x'')) (Some (Node 1 None None ''x'')) []))
          []))
       (Some (Node 1 None None ''x'')) []) = ?L"
    by simp
  have lR: "length_rope ?R = 7" unfolding e by (simp add: length_rope_def)
  have lB: "length_rope ?B = 7" by (simp add: length_rope_def)
  have bR: "balance ?R = Some (None, ?B)"
    unfolding e using balance_seven_leaves [OF _ nR lR, unfolded e, OF _ gR] by simp
  have bB: "balance ?B = Some (None, ?B)"
    using balance_seven_leaves [OF _ nB lB gB] by simp
  from bR bB nB show ?thesis by simp
qed

end
